theory Spec2Isabelle
  imports Main "HOL-Library.Word"
begin

section \<open>The fixed-size analyzer (fixed.hpp, as included by djit-plus-vc/main.cpp)\<close>

text \<open>
  The class template \<open>Analyzer<NThread>\<close> and its vector clock
  \<open>FixedVectorClock<N>\<close> are found at the end of
  \<^verbatim>\<open>src/pintools/Overflow/Overflow.cpp\<close> (lines 227 to 385).  The template
  parameter is the first argument \<open>N\<close> of every function below.

  Undefined behaviour of the C++ code is a value of type \<open>error\<close>: an index outside a
  \<open>std::array\<close>, the increment of an \<open>int\<close> that holds \<open>INT_MAX\<close>, and (for the
  sparse clock of the second part) the dereference of an end iterator.
\<close>

datatype Variable = Variable string

datatype Lock = Lock string

datatype error = IndexOutOfRange | SignedOverflow | EndIteratorDeref

definition bind_result :: "error + 'a \<Rightarrow> ('a \<Rightarrow> error + 'b) \<Rightarrow> error + 'b" where
  "bind_result r f = (case r of Inl e \<Rightarrow> Inl e | Inr v \<Rightarrow> f v)"

definition INT_MAX :: int where
  "INT_MAX = 2147483647"

text \<open>\<open>++c\<close> on an \<open>int\<close>.\<close>

definition pre_increment :: "int \<Rightarrow> error + int" where
  "pre_increment c = (if c = INT_MAX then Inl SignedOverflow else Inr (c + 1))"

subsection \<open>FixedVectorClock\<close>

text \<open>
  \<open>struct FixedVectorClock { std::array<int, N> clocks{}; }\<close>: the one field is a list,
  of length \<open>N\<close> in every state the class can build.  \<open>operator []\<close> takes a
  \<open>size_t\<close>; the analyzer calls it with an \<open>int\<close>, so a negative index converts to a
  value far above \<open>N\<close>.
\<close>

type_synonym FixedVectorClock = "int list"

definition FixedVectorClock :: "nat \<Rightarrow> FixedVectorClock" where
  "FixedVectorClock N = replicate N 0"

definition at_index :: "'a list \<Rightarrow> int \<Rightarrow> error + 'a" where
  "at_index xs i =
     (if 0 \<le> i \<and> i < int (length xs) then Inr (xs ! nat i) else Inl IndexOutOfRange)"

definition set_index :: "'a list \<Rightarrow> int \<Rightarrow> 'a \<Rightarrow> error + 'a list" where
  "set_index xs i v =
     (if 0 \<le> i \<and> i < int (length xs) then Inr (xs[nat i := v]) else Inl IndexOutOfRange)"

text \<open>\<open>operator |=\<close>: \<open>for (i = 0; i < N; ++i) lhs[i] = max(lhs[i], rhs[i])\<close>.\<close>

definition vc_join :: "nat \<Rightarrow> FixedVectorClock \<Rightarrow> FixedVectorClock \<Rightarrow> FixedVectorClock" where
  "vc_join N lhs rhs = fold (\<lambda>i l. l[i := max (l ! i) (rhs ! i)]) [0..<N] lhs"

text \<open>\<open>operator <=\<close>: the loop returns false at the first index with \<open>lhs[i] > rhs[i]\<close>.\<close>

primrec le_loop :: "nat list \<Rightarrow> FixedVectorClock \<Rightarrow> FixedVectorClock \<Rightarrow> bool" where
  "le_loop [] lhs rhs = True"
| "le_loop (i # is) lhs rhs = (if lhs ! i > rhs ! i then False else le_loop is lhs rhs)"

definition vc_le :: "nat \<Rightarrow> FixedVectorClock \<Rightarrow> FixedVectorClock \<Rightarrow> bool" where
  "vc_le N lhs rhs = le_loop [0..<N] lhs rhs"

text \<open>\<open>operator >\<close> is \<open>!(lhs <= rhs)\<close>.\<close>

definition vc_gt :: "nat \<Rightarrow> FixedVectorClock \<Rightarrow> FixedVectorClock \<Rightarrow> bool" where
  "vc_gt N lhs rhs = (\<not> vc_le N lhs rhs)"

subsection \<open>Analyzer\<close>

text \<open>
  The two handlers are \<open>std::function\<close> objects; what the analyzer asks of one is
  whether it holds a callable, so a handler is a \<open>bool\<close>.  A call of a handler is what
  an observer sees of the analyzer: the field \<open>invoked\<close> is the trace of these calls,
  in order.  The handler gets a \<open>const Analyzer&\<close> and cannot change the state.
  The fields keep the names of the private members without the trailing underscore,
  which an Isabelle name cannot end with.
\<close>

datatype Callback = read_violation int Variable | write_violation int Variable

record Analyzer =
  thread_vc :: "FixedVectorClock list"
  read_vc :: "Variable \<rightharpoonup> FixedVectorClock"
  write_vc :: "Variable \<rightharpoonup> FixedVectorClock"
  lock_vc :: "Lock \<rightharpoonup> FixedVectorClock"
  variables :: "Variable list"
  locks :: "Lock list"
  on_read_violated :: bool
  on_write_violated :: bool
  invoked :: "Callback list"

text \<open>
  \<open>std::map::operator []\<close> inserts a value-initialised clock under a missing key.
  \<open>subscript\<close> is the element it returns and \<open>subscript_map\<close> the map afterwards.
\<close>

definition subscript :: "nat \<Rightarrow> ('k \<rightharpoonup> FixedVectorClock) \<Rightarrow> 'k \<Rightarrow> FixedVectorClock" where
  "subscript N m k = (case m k of None \<Rightarrow> FixedVectorClock N | Some v \<Rightarrow> v)"

definition subscript_map :: "nat \<Rightarrow> ('k \<rightharpoonup> FixedVectorClock) \<Rightarrow> 'k \<Rightarrow> ('k \<rightharpoonup> FixedVectorClock)" where
  "subscript_map N m k = m(k \<mapsto> subscript N m k)"

text \<open>\<open>std::map::emplace\<close> leaves an existing entry alone.\<close>

definition emplace :: "('k \<rightharpoonup> 'v) \<Rightarrow> 'k \<Rightarrow> 'v \<Rightarrow> ('k \<rightharpoonup> 'v)" where
  "emplace m k v = (case m k of None \<Rightarrow> m(k \<mapsto> v) | Some _ \<Rightarrow> m)"

text \<open>The constructor: all clocks zero, then \<open>thread_vc_[i][i] = 1\<close> for \<open>i < NThread\<close>.\<close>

definition new_Analyzer :: "nat \<Rightarrow> Analyzer" where
  "new_Analyzer N =
     \<lparr> thread_vc = fold (\<lambda>i c. c[i := (c ! i)[i := 1]]) [0..<N]
                       (replicate N (FixedVectorClock N)),
       read_vc = Map.empty, write_vc = Map.empty, lock_vc = Map.empty,
       variables = [], locks = [],
       on_read_violated = False, on_write_violated = False,
       invoked = [] \<rparr>"

text \<open>
  \<open>Read\<close>: \<open>read_vc_[x][t] = thread_vc_[t][t]\<close>, then the handler is called when
  \<open>write_vc_[x] > thread_vc_[t]\<close> and a handler is installed.  Both subscripts on the
  maps insert a zero clock for a variable that has none.
\<close>

definition Read :: "nat \<Rightarrow> int \<Rightarrow> Variable \<Rightarrow> Analyzer \<Rightarrow> error + Analyzer" where
  "Read N t x a =
     bind_result (at_index (thread_vc a) t) (\<lambda>ct.
     bind_result (at_index ct t) (\<lambda>ctt.
     bind_result (set_index (subscript N (read_vc a) x) t ctt) (\<lambda>rx.
       let a1 = a\<lparr>read_vc := (read_vc a)(x \<mapsto> rx)\<rparr>;
           a2 = a1\<lparr>write_vc := subscript_map N (write_vc a1) x\<rparr>
       in Inr (if vc_gt N (subscript N (write_vc a2) x) ct \<and> on_read_violated a2
               then a2\<lparr>invoked := invoked a2 @ [read_violation t x]\<rparr>
               else a2))))"

text \<open>
  \<open>Write\<close>: \<open>write_vc_[x][t] = thread_vc_[t][t]\<close>, then the test
  \<open>write_vc_[x] > thread_vc_[t] || read_vc_[x] > thread_vc_[t]\<close>.  The right operand
  of \<open>||\<close>, and with it the insertion \<open>read_vc_[x]\<close>, is evaluated only when the left
  one is false.
\<close>

definition Write :: "nat \<Rightarrow> int \<Rightarrow> Variable \<Rightarrow> Analyzer \<Rightarrow> error + Analyzer" where
  "Write N t x a =
     bind_result (at_index (thread_vc a) t) (\<lambda>ct.
     bind_result (at_index ct t) (\<lambda>ctt.
     bind_result (set_index (subscript N (write_vc a) x) t ctt) (\<lambda>wx.
       let a1 = a\<lparr>write_vc := (write_vc a)(x \<mapsto> wx)\<rparr>
       in if vc_gt N wx ct
          then Inr (if on_write_violated a1
                    then a1\<lparr>invoked := invoked a1 @ [write_violation t x]\<rparr>
                    else a1)
          else let a2 = a1\<lparr>read_vc := subscript_map N (read_vc a1) x\<rparr>
               in Inr (if vc_gt N (subscript N (read_vc a2) x) ct \<and> on_write_violated a2
                       then a2\<lparr>invoked := invoked a2 @ [write_violation t x]\<rparr>
                       else a2))))"

text \<open>\<open>Acquire\<close>: \<open>thread_vc_[t] |= lock_vc_[m]\<close>.\<close>

definition Acquire :: "nat \<Rightarrow> int \<Rightarrow> Lock \<Rightarrow> Analyzer \<Rightarrow> error + Analyzer" where
  "Acquire N t m a =
     (let a1 = a\<lparr>lock_vc := subscript_map N (lock_vc a) m\<rparr>
      in bind_result (at_index (thread_vc a1) t) (\<lambda>ct.
         bind_result (set_index (thread_vc a1) t (vc_join N ct (subscript N (lock_vc a1) m)))
           (\<lambda>tv. Inr (a1\<lparr>thread_vc := tv\<rparr>))))"

text \<open>\<open>Release\<close>: \<open>++thread_vc_[t][t]\<close>, then \<open>lock_vc_[m] = thread_vc_[t]\<close>.\<close>

definition Release :: "nat \<Rightarrow> int \<Rightarrow> Lock \<Rightarrow> Analyzer \<Rightarrow> error + Analyzer" where
  "Release N t m a =
     bind_result (at_index (thread_vc a) t) (\<lambda>ct.
     bind_result (at_index ct t) (\<lambda>ctt.
     bind_result (pre_increment ctt) (\<lambda>c.
     bind_result (set_index ct t c) (\<lambda>ct'.
     bind_result (set_index (thread_vc a) t ct') (\<lambda>tv.
       Inr (a\<lparr>thread_vc := tv, lock_vc := (lock_vc a)(m \<mapsto> ct')\<rparr>))))))"

text \<open>
  The two overloads of \<open>Register\<close>: \<open>push_back\<close> on the enumeration, \<open>emplace\<close> of a
  zero clock in each map.
\<close>

definition Register_Variable :: "nat \<Rightarrow> Variable \<Rightarrow> Analyzer \<Rightarrow> Analyzer" where
  "Register_Variable N x a =
     a\<lparr>variables := variables a @ [x],
       read_vc := emplace (read_vc a) x (FixedVectorClock N),
       write_vc := emplace (write_vc a) x (FixedVectorClock N)\<rparr>"

definition Register_Lock :: "nat \<Rightarrow> Lock \<Rightarrow> Analyzer \<Rightarrow> Analyzer" where
  "Register_Lock N m a =
     a\<lparr>locks := locks a @ [m],
       lock_vc := emplace (lock_vc a) m (FixedVectorClock N)\<rparr>"

definition GetVariables :: "Analyzer \<Rightarrow> Variable list" where
  "GetVariables a = variables a"

definition GetLocks :: "Analyzer \<Rightarrow> Lock list" where
  "GetLocks a = locks a"

definition SetReadViolationHandler :: "bool \<Rightarrow> Analyzer \<Rightarrow> Analyzer" where
  "SetReadViolationHandler f a = a\<lparr>on_read_violated := f\<rparr>"

definition SetWriteViolationHandler :: "bool \<Rightarrow> Analyzer \<Rightarrow> Analyzer" where
  "SetWriteViolationHandler f a = a\<lparr>on_write_violated := f\<rparr>"

subsection \<open>Sequences of calls\<close>

text \<open>
  A model, as \<^verbatim>\<open>src/djit-plus-vc/main.cpp\<close> writes one, is a sequence of calls on one
  analyzer; \<open>rd\<close>, \<open>wr\<close>, \<open>acq\<close> and \<open>rel\<close> are the names main.cpp gives the four
  events.  A call with undefined behaviour ends the run.
\<close>

datatype Event =
    rd int Variable
  | wr int Variable
  | acq int Lock
  | rel int Lock
  | reg_var Variable
  | reg_lock Lock
  | set_read_handler bool
  | set_write_handler bool

fun step :: "nat \<Rightarrow> Event \<Rightarrow> Analyzer \<Rightarrow> error + Analyzer" where
  "step N (rd t x) a = Read N t x a"
| "step N (wr t x) a = Write N t x a"
| "step N (acq t m) a = Acquire N t m a"
| "step N (rel t m) a = Release N t m a"
| "step N (reg_var x) a = Inr (Register_Variable N x a)"
| "step N (reg_lock m) a = Inr (Register_Lock N m a)"
| "step N (set_read_handler f) a = Inr (SetReadViolationHandler f a)"
| "step N (set_write_handler f) a = Inr (SetWriteViolationHandler f a)"

fun run :: "nat \<Rightarrow> Event list \<Rightarrow> Analyzer \<Rightarrow> error + Analyzer" where
  "run N [] a = Inr a"
| "run N (e # es) a = bind_result (step N e a) (run N es)"

inductive reachable :: "nat \<Rightarrow> Analyzer \<Rightarrow> bool" for N :: nat where
  reachable_init: "reachable N (new_Analyzer N)"
| reachable_step: "reachable N a \<Longrightarrow> step N e a = Inr a' \<Longrightarrow> reachable N a'"

text \<open>
  The state main.cpp builds before the first event: two threads, both handlers
  installed, the variable \<open>x\<close> and the lock \<open>m\<close> registered.
\<close>

definition main_start :: Analyzer where
  "main_start =
     Register_Lock 2 (Lock ''m'')
       (Register_Variable 2 (Variable ''x'')
         (SetWriteViolationHandler True (SetReadViolationHandler True (new_Analyzer 2))))"

definition PROTECT_BY_LOCK :: "Event list" where
  "PROTECT_BY_LOCK =
     [acq 0 (Lock ''m''), rd 0 (Variable ''x''), wr 0 (Variable ''x''), rel 0 (Lock ''m''),
      acq 1 (Lock ''m''), rd 1 (Variable ''x''), wr 1 (Variable ''x''), rel 1 (Lock ''m'')]"

text \<open>
  \<open>model_state N es\<close> is the analyzer after the calls \<open>es\<close> on a fresh
  \<open>Analyzer<N>\<close>; a sequence that runs into undefined behaviour leaves no state, and
  the fresh analyzer stands in for it.
\<close>

definition model_state :: "nat \<Rightarrow> Event list \<Rightarrow> Analyzer" where
  "model_state N es = (case run N es (new_Analyzer N) of Inr a \<Rightarrow> a | Inl e \<Rightarrow> new_Analyzer N)"

definition main_setup :: "Event list" where
  "main_setup = [set_read_handler True, set_write_handler True,
                 reg_var (Variable ''x''), reg_lock (Lock ''m'')]"

text \<open>
  Three more models, used as concrete inputs below: thread 1 writes, releases and
  reads; thread 1 writes without any synchronisation before thread 0 does anything;
  and the same with thread 0's write and read appended.
\<close>

definition write_release_read :: "Event list" where
  "write_release_read =
     main_setup @ [wr 1 (Variable ''x''), rel 1 (Lock ''m''), rd 1 (Variable ''x'')]"

definition unordered_write :: "Event list" where
  "unordered_write = main_setup @ [wr 1 (Variable ''x'')]"

definition unordered_write_then_write_read :: "Event list" where
  "unordered_write_then_write_read =
     unordered_write @ [wr 0 (Variable ''x''), rd 0 (Variable ''x'')]"

subsection \<open>Predicates on analyzer states\<close>

text \<open>
  \<open>well_sized\<close>: every clock has \<open>N\<close> components, which the type
  \<open>std::array<int, N>\<close> guarantees in the source.  \<open>diag a t\<close> is \<open>C[t][t]\<close>, and
  \<open>below N a v\<close> says that the clock \<open>v\<close> is, in every component \<open>t\<close>, at most \<open>C[t][t]\<close>.
\<close>

definition well_sized :: "nat \<Rightarrow> Analyzer \<Rightarrow> bool" where
  "well_sized N a \<longleftrightarrow>
     length (thread_vc a) = N
     \<and> (\<forall>t<N. length (thread_vc a ! t) = N)
     \<and> (\<forall>x v. read_vc a x = Some v \<longrightarrow> length v = N)
     \<and> (\<forall>x v. write_vc a x = Some v \<longrightarrow> length v = N)
     \<and> (\<forall>m v. lock_vc a m = Some v \<longrightarrow> length v = N)"

definition diag :: "Analyzer \<Rightarrow> nat \<Rightarrow> int" where
  "diag a t = thread_vc a ! t ! t"

definition below :: "nat \<Rightarrow> Analyzer \<Rightarrow> FixedVectorClock \<Rightarrow> bool" where
  "below N a v \<longleftrightarrow> (\<forall>t<N. v ! t \<le> diag a t)"

definition clock_inv :: "nat \<Rightarrow> Analyzer \<Rightarrow> bool" where
  "clock_inv N a \<longleftrightarrow>
     (\<forall>t<N. 1 \<le> diag a t)
     \<and> (\<forall>u<N. below N a (thread_vc a ! u))
     \<and> (\<forall>x v. read_vc a x = Some v \<longrightarrow> below N a v)
     \<and> (\<forall>x v. write_vc a x = Some v \<longrightarrow> below N a v)
     \<and> (\<forall>m v. lock_vc a m = Some v \<longrightarrow> below N a v)"

text \<open>Every registered variable and lock has its clocks.\<close>

definition registered_inv :: "Analyzer \<Rightarrow> bool" where
  "registered_inv a \<longleftrightarrow>
     set (variables a) \<subseteq> dom (read_vc a) \<and> set (variables a) \<subseteq> dom (write_vc a)
     \<and> set (locks a) \<subseteq> dom (lock_vc a)"

section \<open>The sparse analyzer of the Pin tool (pintools/VectorClock)\<close>

text \<open>
  The tool keeps its clocks in global variables and updates them in free functions; the
  source is the C++ text that follows the build notes in
  \<^verbatim>\<open>src/pintools/VectorClock/README.md\<close>.  Thread ids are Pin's \<open>THREADID\<close>
  (\<open>UINT32\<close>), addresses are \<open>ADDRINT\<close> and the handles of \<open>std::thread\<close> objects are
  pointers; clock values are \<open>int\<close>.
\<close>

type_synonym THREADID = "32 word"

type_synonym ADDRINT = "64 word"

subsection \<open>VC\<close>

text \<open>
  \<open>class VC\<close> has one member, \<open>map<THREADID, T> clocks_\<close>.  A \<open>std::map\<close> holds each
  key once and a range-based \<open>for\<close> visits the keys in increasing order, so the member
  is a list of pairs, strictly increasing in the key; \<open>VC_ok\<close> says so.  The order
  matters: \<open>operator <=\<close> stops at the first entry that decides it.
\<close>

type_synonym VC = "(THREADID \<times> int) list"

definition VC_ok :: "VC \<Rightarrow> bool" where
  "VC_ok c = (sorted (map fst c) \<and> distinct (map fst c))"

text \<open>\<open>clocks_.find(tid)\<close>: \<open>None\<close> stands for the end iterator.\<close>

definition VC_find :: "VC \<Rightarrow> THREADID \<Rightarrow> int option" where
  "VC_find c tid = map_of c tid"

text \<open>\<open>clocks_[tid] = v\<close>: the entry is overwritten, or inserted at its place.\<close>

fun assign :: "THREADID \<Rightarrow> int \<Rightarrow> VC \<Rightarrow> VC" where
  "assign k v [] = [(k, v)]"
| "assign k v ((k', v') # c) =
     (if k < k' then (k, v) # (k', v') # c
      else if k = k' then (k, v) # c
      else (k', v') # assign k v c)"

text \<open>The two constructors: \<open>VC()\<close> and \<open>VC(tid, value)\<close>, which runs \<open>clocks_[tid] = value\<close>.\<close>

definition VC_empty :: VC where
  "VC_empty = []"

definition VC_single :: "THREADID \<Rightarrow> int \<Rightarrow> VC" where
  "VC_single tid v = assign tid v VC_empty"

text \<open>
  \<open>VC::operator []\<close> returns \<open>clocks_[tid]\<close>, which inserts the value 0 under a
  missing key: \<open>VC_subscript\<close> is the clock afterwards and \<open>VC_value\<close> the element read.
  \<open>VC_value\<close> is also the clock as the total function of the data model, where a
  thread without an entry has time 0.
\<close>

definition VC_subscript :: "VC \<Rightarrow> THREADID \<Rightarrow> VC" where
  "VC_subscript c tid = (case VC_find c tid of None \<Rightarrow> assign tid 0 c | Some _ \<Rightarrow> c)"

definition VC_value :: "VC \<Rightarrow> THREADID \<Rightarrow> int" where
  "VC_value c tid = (case VC_find c tid of None \<Rightarrow> 0 | Some v \<Rightarrow> v)"

text \<open>
  \<open>operator |=\<close>: \<open>for (auto [tid, v] : rhs.clocks_) if (clocks_[tid] < v) clocks_[tid] = v\<close>.
  When both operands are the same object no entry is inserted or changed, so the
  iteration over a copy of the right operand is the iteration of the source.
\<close>

fun VC_join :: "VC \<Rightarrow> VC \<Rightarrow> VC" where
  "VC_join c [] = c"
| "VC_join c ((tid, v) # rhs) =
     (let c1 = VC_subscript c tid
      in VC_join (if VC_value c1 tid < v then assign tid v c1 else c1) rhs)"

text \<open>
  \<open>operator <=\<close>, branch by branch.  With \<open>it\<close> the result of \<open>rhs.clocks_.find(tid)\<close>:
  \<open>if (it == end && v > 0) return false; else if (v > it->second) return false;\<close>.
  When \<open>it\<close> is the end iterator and \<open>v > 0\<close> is false, the second condition
  dereferences the end iterator.
\<close>

fun VC_le :: "VC \<Rightarrow> VC \<Rightarrow> error + bool" where
  "VC_le [] rhs = Inr True"
| "VC_le ((tid, v) # c) rhs =
     (case VC_find rhs tid of
        None \<Rightarrow> (if v > 0 then Inr False else Inl EndIteratorDeref)
      | Some w \<Rightarrow> (if v > w then Inr False else VC_le c rhs))"

definition VC_gt :: "VC \<Rightarrow> VC \<Rightarrow> error + bool" where
  "VC_gt c rhs = bind_result (VC_le c rhs) (\<lambda>b. Inr (\<not> b))"

subsection \<open>ThreadVCMap and the global tables\<close>

text \<open>
  \<open>ThreadVCMap::operator []\<close>: \<open>if (m_.count(tid) == 0) m_[tid][tid] = 1; return m_[tid]\<close>.
  \<open>ThreadVCMap_subscript\<close> is the map afterwards, \<open>ThreadVCMap_at\<close> the clock returned.
\<close>

definition ThreadVCMap_subscript :: "(THREADID \<rightharpoonup> VC) \<Rightarrow> THREADID \<Rightarrow> (THREADID \<rightharpoonup> VC)" where
  "ThreadVCMap_subscript m tid = (case m tid of None \<Rightarrow> m(tid \<mapsto> assign tid 1 []) | Some _ \<Rightarrow> m)"

definition ThreadVCMap_at :: "(THREADID \<rightharpoonup> VC) \<Rightarrow> THREADID \<Rightarrow> VC" where
  "ThreadVCMap_at m tid = (case m tid of None \<Rightarrow> assign tid 1 [] | Some c \<Rightarrow> c)"

text \<open>\<open>operator []\<close> of \<open>map<ADDRINT, VC<int>>\<close> inserts an empty clock.\<close>

definition addr_subscript :: "(ADDRINT \<rightharpoonup> VC) \<Rightarrow> ADDRINT \<Rightarrow> (ADDRINT \<rightharpoonup> VC)" where
  "addr_subscript m k = (case m k of None \<Rightarrow> m(k \<mapsto> []) | Some _ \<Rightarrow> m)"

definition addr_at :: "(ADDRINT \<rightharpoonup> VC) \<Rightarrow> ADDRINT \<Rightarrow> VC" where
  "addr_at m k = (case m k of None \<Rightarrow> [] | Some c \<Rightarrow> c)"

text \<open>
  What the tool prints: the race reports and the access line on \<open>*out\<close>, the two
  trace lines of the thread wrappers on \<open>cout\<close>.  A line is kept as its fields.
\<close>

datatype Output =
    Write_race THREADID VC ADDRINT VC VC
  | Read_race THREADID VC ADDRINT VC
  | Found bool THREADID ADDRINT ADDRINT
  | thread_ctor_by THREADID
  | thread_join_by THREADID

text \<open>
  The globals \<open>thread_vc\<close>, \<open>read_vc\<close>, \<open>write_vc\<close>, \<open>lock_vc\<close> (prefixed \<open>g\<close> here,
  the fixed-size analyzer has members of these names), \<open>thread_to_id\<close>, the static
  local \<open>last_id\<close> of \<open>Fork\<close>, and the two streams.
\<close>

record Globals =
  g_thread_vc :: "THREADID \<rightharpoonup> VC"
  g_read_vc :: "ADDRINT \<rightharpoonup> VC"
  g_write_vc :: "ADDRINT \<rightharpoonup> VC"
  g_lock_vc :: "ADDRINT \<rightharpoonup> VC"
  thread_to_id :: "ADDRINT \<rightharpoonup> THREADID"
  last_id :: THREADID
  out :: "Output list"
  cout :: "Output list"

text \<open>
  The tables as \<open>main\<close> leaves them before the program starts:
  \<open>LoadSymbolAddrFromTargetBinary\<close> has stored an empty read and write clock under
  the address of each watched variable and an empty lock clock under each watched lock.
\<close>

definition pin_start :: "ADDRINT list \<Rightarrow> ADDRINT list \<Rightarrow> Globals" where
  "pin_start watch_vars watch_locks =
     \<lparr> g_thread_vc = Map.empty,
       g_read_vc = map_of (map (\<lambda>a. (a, [])) watch_vars),
       g_write_vc = map_of (map (\<lambda>a. (a, [])) watch_vars),
       g_lock_vc = map_of (map (\<lambda>a. (a, [])) watch_locks),
       thread_to_id = Map.empty, last_id = 0, out = [], cout = [] \<rparr>"

subsection \<open>Analysis routines\<close>

text \<open>\<open>thread_vc[tid][tid]\<close> read as a value: both subscripts may insert.\<close>

definition own_clock :: "(THREADID \<rightharpoonup> VC) \<Rightarrow> THREADID \<Rightarrow> (THREADID \<rightharpoonup> VC) \<times> int" where
  "own_clock m tid =
     (let c = VC_subscript (ThreadVCMap_at m tid) tid
      in (m(tid \<mapsto> c), VC_value c tid))"

text \<open>\<open>++thread_vc[tid][tid]\<close>.\<close>

definition increment_own :: "(THREADID \<rightharpoonup> VC) \<Rightarrow> THREADID \<Rightarrow> error + (THREADID \<rightharpoonup> VC)" where
  "increment_own m tid =
     (let c = VC_subscript (ThreadVCMap_at m tid) tid
      in bind_result (pre_increment (VC_value c tid)) (\<lambda>v. Inr (m(tid \<mapsto> assign tid v c))))"

text \<open>\<open>Read\<close>: \<open>read_vc[mem_addr][tid] = thread_vc[tid][tid]\<close>.\<close>

definition pin_Read :: "THREADID \<Rightarrow> ADDRINT \<Rightarrow> Globals \<Rightarrow> Globals" where
  "pin_Read tid mem_addr g =
     (let (tv, v) = own_clock (g_thread_vc g) tid
      in g\<lparr>g_thread_vc := tv,
           g_read_vc := (g_read_vc g)(mem_addr \<mapsto> assign tid v (addr_at (g_read_vc g) mem_addr))\<rparr>)"

text \<open>\<open>Write\<close>: \<open>write_vc[mem_addr][tid] = thread_vc[tid][tid]\<close>.\<close>

definition pin_Write :: "THREADID \<Rightarrow> ADDRINT \<Rightarrow> Globals \<Rightarrow> Globals" where
  "pin_Write tid mem_addr g =
     (let (tv, v) = own_clock (g_thread_vc g) tid
      in g\<lparr>g_thread_vc := tv,
           g_write_vc := (g_write_vc g)(mem_addr \<mapsto> assign tid v (addr_at (g_write_vc g) mem_addr))\<rparr>)"

text \<open>\<open>Aquire\<close> (the source's spelling): \<open>thread_vc[tid] |= lock_vc[lock_addr]\<close>.\<close>

definition Aquire :: "THREADID \<Rightarrow> ADDRINT \<Rightarrow> Globals \<Rightarrow> Globals" where
  "Aquire tid lock_addr g =
     g\<lparr>g_lock_vc := addr_subscript (g_lock_vc g) lock_addr,
       g_thread_vc := (g_thread_vc g)(tid \<mapsto>
          VC_join (ThreadVCMap_at (g_thread_vc g) tid) (addr_at (g_lock_vc g) lock_addr))\<rparr>"

text \<open>
  \<open>Release\<close>: \<open>lock_vc[lock_addr] = thread_vc[tid]\<close>, then \<open>++thread_vc[tid][tid]\<close>;
  the copy comes first here, unlike in the fixed-size analyzer.
\<close>

definition pin_Release :: "THREADID \<Rightarrow> ADDRINT \<Rightarrow> Globals \<Rightarrow> error + Globals" where
  "pin_Release tid lock_addr g =
     (let tv = ThreadVCMap_subscript (g_thread_vc g) tid
      in bind_result (increment_own tv tid) (\<lambda>tv'.
           Inr (g\<lparr>g_lock_vc := (g_lock_vc g)(lock_addr \<mapsto> ThreadVCMap_at tv tid),
                  g_thread_vc := tv'\<rparr>)))"

text \<open>
  \<open>NoRaceForWrite\<close>: \<open>read_vc[mem_addr] <= thread_vc[tid] && write_vc[mem_addr] <= thread_vc[tid]\<close>.
  The subscripts insert, and the right operand of \<open>&&\<close> is evaluated only when the
  left one is true.
\<close>

definition NoRaceForWrite :: "THREADID \<Rightarrow> ADDRINT \<Rightarrow> Globals \<Rightarrow> error + (bool \<times> Globals)" where
  "NoRaceForWrite tid mem_addr g =
     (let g1 = g\<lparr>g_read_vc := addr_subscript (g_read_vc g) mem_addr,
                 g_thread_vc := ThreadVCMap_subscript (g_thread_vc g) tid\<rparr>;
          ct = ThreadVCMap_at (g_thread_vc g) tid
      in bind_result (VC_le (addr_at (g_read_vc g) mem_addr) ct) (\<lambda>b.
           if \<not> b then Inr (False, g1)
           else bind_result (VC_le (addr_at (g_write_vc g) mem_addr) ct) (\<lambda>b'.
                  Inr (b', g1\<lparr>g_write_vc := addr_subscript (g_write_vc g) mem_addr\<rparr>))))"

text \<open>\<open>NoRaceForRead\<close>: \<open>write_vc[mem_addr] <= thread_vc[tid]\<close>.\<close>

definition NoRaceForRead :: "THREADID \<Rightarrow> ADDRINT \<Rightarrow> Globals \<Rightarrow> error + (bool \<times> Globals)" where
  "NoRaceForRead tid mem_addr g =
     bind_result (VC_le (addr_at (g_write_vc g) mem_addr) (ThreadVCMap_at (g_thread_vc g) tid))
       (\<lambda>b. Inr (b, g\<lparr>g_write_vc := addr_subscript (g_write_vc g) mem_addr,
                      g_thread_vc := ThreadVCMap_subscript (g_thread_vc g) tid\<rparr>))"

text \<open>
  \<open>Fork\<close>: \<open>++last_id\<close> (unsigned, so it wraps), \<open>thread_to_id[thread_obj] = last_id\<close>,
  \<open>thread_vc[last_id] |= thread_vc[tid]\<close>, \<open>++thread_vc[tid][tid]\<close>.
\<close>

definition Fork :: "THREADID \<Rightarrow> ADDRINT \<Rightarrow> Globals \<Rightarrow> error + Globals" where
  "Fork tid thread_obj g =
     (let u = last_id g + 1;
          tv = ThreadVCMap_subscript (ThreadVCMap_subscript (g_thread_vc g) tid) u;
          tv1 = tv(u \<mapsto> VC_join (ThreadVCMap_at tv u) (ThreadVCMap_at tv tid))
      in bind_result (increment_own tv1 tid) (\<lambda>tv2.
           Inr (g\<lparr>last_id := u,
                  thread_to_id := (thread_to_id g)(thread_obj \<mapsto> u),
                  g_thread_vc := tv2\<rparr>)))"

text \<open>
  \<open>Join\<close>: \<open>join_id = thread_to_id[thread_obj]\<close>, where the subscript inserts the id 0
  under a handle that is not bound; \<open>thread_vc[tid] |= thread_vc[join_id]\<close>;
  \<open>++thread_vc[join_id][join_id]\<close>.
\<close>

definition Join :: "THREADID \<Rightarrow> ADDRINT \<Rightarrow> Globals \<Rightarrow> error + Globals" where
  "Join tid thread_obj g =
     (let join_id = (case thread_to_id g thread_obj of None \<Rightarrow> 0 | Some i \<Rightarrow> i);
          tv = ThreadVCMap_subscript (ThreadVCMap_subscript (g_thread_vc g) join_id) tid;
          tv1 = tv(tid \<mapsto> VC_join (ThreadVCMap_at tv tid) (ThreadVCMap_at tv join_id))
      in bind_result (increment_own tv1 join_id) (\<lambda>tv2.
           Inr (g\<lparr>thread_to_id := (thread_to_id g)(thread_obj \<mapsto> join_id),
                  g_thread_vc := tv2\<rparr>)))"

text \<open>
  \<open>CheckOverflow\<close>, the analysis routine in front of every memory access; \<open>tid\<close> is
  what \<open>PIN_ThreadId()\<close> returns.  It returns at once when \<open>read_vc\<close> has no entry for
  the address.  Otherwise it updates the clock, evaluates the predicate, prints the
  race line when the predicate is false, and prints the access line.
\<close>

definition CheckOverflow :: "THREADID \<Rightarrow> ADDRINT \<Rightarrow> ADDRINT \<Rightarrow> bool \<Rightarrow> Globals \<Rightarrow> error + Globals" where
  "CheckOverflow tid ins_addr mem_addr is_write g =
     (if g_read_vc g mem_addr = None then Inr g
      else if is_write then
        bind_result (NoRaceForWrite tid mem_addr (pin_Write tid mem_addr g)) (\<lambda>(b, g1).
          let g2 = (if \<not> b
                    then g1\<lparr>g_thread_vc := ThreadVCMap_subscript (g_thread_vc g1) tid,
                            g_read_vc := addr_subscript (g_read_vc g1) mem_addr,
                            g_write_vc := addr_subscript (g_write_vc g1) mem_addr,
                            out := out g1 @ [Write_race tid (ThreadVCMap_at (g_thread_vc g1) tid)
                                     mem_addr (addr_at (g_read_vc g1) mem_addr)
                                     (addr_at (g_write_vc g1) mem_addr)]\<rparr>
                    else g1)
          in Inr (g2\<lparr>out := out g2 @ [Found True tid mem_addr ins_addr]\<rparr>))
      else
        bind_result (NoRaceForRead tid mem_addr (pin_Read tid mem_addr g)) (\<lambda>(b, g1).
          let g2 = (if \<not> b
                    then g1\<lparr>g_thread_vc := ThreadVCMap_subscript (g_thread_vc g1) tid,
                            g_write_vc := addr_subscript (g_write_vc g1) mem_addr,
                            out := out g1 @ [Read_race tid (ThreadVCMap_at (g_thread_vc g1) tid)
                                     mem_addr (addr_at (g_write_vc g1) mem_addr)]\<rparr>
                    else g1)
          in Inr (g2\<lparr>out := out g2 @ [Found False tid mem_addr ins_addr]\<rparr>)))"

text \<open>
  The wrappers that replace \<open>std::mutex::lock\<close>, \<open>unlock\<close>, the constructor of
  \<open>std::thread\<close> and \<open>join\<close>; the call of the replaced function is not part of the
  analyzer.  A mutex outside \<open>lock_vc\<close> is not followed.
\<close>

definition MutexLockWrapper :: "THREADID \<Rightarrow> ADDRINT \<Rightarrow> Globals \<Rightarrow> Globals" where
  "MutexLockWrapper tid m g = (if g_lock_vc g m \<noteq> None then Aquire tid m g else g)"

definition MutexUnlockWrapper :: "THREADID \<Rightarrow> ADDRINT \<Rightarrow> Globals \<Rightarrow> error + Globals" where
  "MutexUnlockWrapper tid m g = (if g_lock_vc g m \<noteq> None then pin_Release tid m g else Inr g)"

definition ThreadCtorWrapper :: "THREADID \<Rightarrow> ADDRINT \<Rightarrow> Globals \<Rightarrow> error + Globals" where
  "ThreadCtorWrapper tid t g = Fork tid t (g\<lparr>cout := cout g @ [thread_ctor_by tid]\<rparr>)"

definition ThreadJoinWrapper :: "THREADID \<Rightarrow> ADDRINT \<Rightarrow> Globals \<Rightarrow> error + Globals" where
  "ThreadJoinWrapper tid t g = Join tid t (g\<lparr>cout := cout g @ [thread_join_by tid]\<rparr>)"

subsection \<open>Runs of the tool and predicates on its tables\<close>

text \<open>
  The analysis routines run when the instrumented program reaches a memory access, a
  call of \<open>std::mutex::lock\<close> or \<open>unlock\<close>, the construction of a \<open>std::thread\<close> or a
  \<open>join\<close>.  \<open>pin_reachable watch_vars watch_locks\<close> holds of the tables after any
  sequence of such calls that stays clear of undefined behaviour.
\<close>

datatype PinEvent =
    memory_access THREADID ADDRINT ADDRINT bool
  | mutex_lock THREADID ADDRINT
  | mutex_unlock THREADID ADDRINT
  | thread_ctor THREADID ADDRINT
  | thread_join THREADID ADDRINT

fun pin_step :: "PinEvent \<Rightarrow> Globals \<Rightarrow> error + Globals" where
  "pin_step (memory_access tid ins_addr mem_addr is_write) g =
     CheckOverflow tid ins_addr mem_addr is_write g"
| "pin_step (mutex_lock tid m) g = Inr (MutexLockWrapper tid m g)"
| "pin_step (mutex_unlock tid m) g = MutexUnlockWrapper tid m g"
| "pin_step (thread_ctor tid t) g = ThreadCtorWrapper tid t g"
| "pin_step (thread_join tid t) g = ThreadJoinWrapper tid t g"

fun pin_run :: "PinEvent list \<Rightarrow> Globals \<Rightarrow> error + Globals" where
  "pin_run [] g = Inr g"
| "pin_run (e # es) g = bind_result (pin_step e g) (pin_run es)"

inductive pin_reachable :: "ADDRINT list \<Rightarrow> ADDRINT list \<Rightarrow> Globals \<Rightarrow> bool"
  for watch_vars watch_locks :: "ADDRINT list" where
  pin_reachable_start: "pin_reachable watch_vars watch_locks (pin_start watch_vars watch_locks)"
| pin_reachable_step:
    "pin_reachable watch_vars watch_locks g \<Longrightarrow> pin_step e g = Inr g'
     \<Longrightarrow> pin_reachable watch_vars watch_locks g'"

text \<open>
  \<open>pin_state\<close> is the state after a sequence of calls, from the tables \<open>main\<close> builds;
  the start state stands in for a run that has none.
\<close>

definition pin_state :: "ADDRINT list \<Rightarrow> ADDRINT list \<Rightarrow> PinEvent list \<Rightarrow> Globals" where
  "pin_state watch_vars watch_locks es =
     (case pin_run es (pin_start watch_vars watch_locks) of
        Inr g \<Rightarrow> g | Inl e \<Rightarrow> pin_start watch_vars watch_locks)"

text \<open>
  \<open>VC_valid\<close>: a clock as the tool builds them, with every stored time positive.
  \<open>pin_inv\<close>: every stored clock is valid and the clock of a thread has an entry for
  the thread itself.
\<close>

definition VC_valid :: "VC \<Rightarrow> bool" where
  "VC_valid c \<longleftrightarrow> VC_ok c \<and> (\<forall>p\<in>set c. 0 < snd p)"

definition threads_ok :: "(THREADID \<rightharpoonup> VC) \<Rightarrow> bool" where
  "threads_ok m \<longleftrightarrow> (\<forall>t c. m t = Some c \<longrightarrow> VC_valid c \<and> VC_find c t \<noteq> None)"

definition addrs_ok :: "(ADDRINT \<rightharpoonup> VC) \<Rightarrow> bool" where
  "addrs_ok m \<longleftrightarrow> (\<forall>x c. m x = Some c \<longrightarrow> VC_valid c)"

definition pin_inv :: "Globals \<Rightarrow> bool" where
  "pin_inv g \<longleftrightarrow>
     threads_ok (g_thread_vc g) \<and> addrs_ok (g_read_vc g)
     \<and> addrs_ok (g_write_vc g) \<and> addrs_ok (g_lock_vc g)"

text \<open>
  \<open>clock_of g t\<close> is \<open>C[t]\<close> as the tool reads it, \<open>thread_vc[t]\<close>, and \<open>own_time g t\<close>
  is \<open>C[t][t]\<close>.  \<open>pin_clock_inv\<close>: the clock of another thread and every lock clock
  are strictly below the own times, every read and write clock is at most the own times.
\<close>

definition clock_of :: "Globals \<Rightarrow> THREADID \<Rightarrow> VC" where
  "clock_of g t = ThreadVCMap_at (g_thread_vc g) t"

definition own_time :: "Globals \<Rightarrow> THREADID \<Rightarrow> int" where
  "own_time g t = VC_value (clock_of g t) t"

definition pin_clock_inv :: "Globals \<Rightarrow> bool" where
  "pin_clock_inv g \<longleftrightarrow>
     (\<forall>u t. u \<noteq> t \<longrightarrow> VC_value (clock_of g u) t < own_time g t)
     \<and> (\<forall>m c t. g_lock_vc g m = Some c \<longrightarrow> VC_value c t < own_time g t)
     \<and> (\<forall>x c t. g_read_vc g x = Some c \<longrightarrow> VC_value c t \<le> own_time g t)
     \<and> (\<forall>x c t. g_write_vc g x = Some c \<longrightarrow> VC_value c t \<le> own_time g t)"

text \<open>
  \<open>fresh_id g tid u\<close>: the id \<open>u\<close> is new to the thread clocks that \<open>Fork(tid, _)\<close>
  touches: it is not \<open>tid\<close>, no clock is stored for it, and the clock of \<open>tid\<close> has no
  entry for it.
\<close>

definition fresh_id :: "Globals \<Rightarrow> THREADID \<Rightarrow> THREADID \<Rightarrow> bool" where
  "fresh_id g tid u \<longleftrightarrow>
     u \<noteq> tid \<and> g_thread_vc g u = None
     \<and> VC_find (ThreadVCMap_at (g_thread_vc g) tid) u = None"

text \<open>
  Concrete runs of the tool, with the variable at address 5 and the mutex at address 7
  watched: thread 1 writes the variable and unlocks the mutex; thread 0 does.
\<close>

definition thread1_trace :: "PinEvent list" where
  "thread1_trace = [memory_access 1 100 5 True, mutex_unlock 1 7]"

definition thread0_trace :: "PinEvent list" where
  "thread0_trace = [memory_access 0 100 5 True, mutex_unlock 0 7]"

section \<open>Properties of the fixed-size analyzer\<close>

lemmas analyzer_defs =
  Read_def Write_def Acquire_def Release_def Register_Variable_def Register_Lock_def
  SetReadViolationHandler_def SetWriteViolationHandler_def new_Analyzer_def
  FixedVectorClock_def emplace_def bind_result_def at_index_def set_index_def
  subscript_def subscript_map_def vc_gt_def vc_le_def vc_join_def
  pre_increment_def INT_MAX_def

subsection \<open>The loops and the four event operations\<close>

lemma fold_upt_update_length:
  "length (fold (\<lambda>i l. l[i := g i (l ! i)]) [0..<k] l) = length l"
  by (induction k) simp_all

lemma fold_upt_update_nth:
  "j < length l \<Longrightarrow>
   fold (\<lambda>i l. l[i := g i (l ! i)]) [0..<k] l ! j = (if j < k then g j (l ! j) else l ! j)"
proof (induction k)
  case 0
  then show ?case by simp
next
  case (Suc k)
  then show ?case
    by (cases "j = k") (simp_all add: fold_upt_update_length less_Suc_eq)
qed

lemma length_vc_join: "length (vc_join N lhs rhs) = length lhs"
  unfolding vc_join_def
  using fold_upt_update_length [of "\<lambda>i v. max v (rhs ! i)" N lhs] by simp

lemma nth_vc_join:
  "i < length lhs \<Longrightarrow> vc_join N lhs rhs ! i = (if i < N then max (lhs ! i) (rhs ! i) else lhs ! i)"
  unfolding vc_join_def
  using fold_upt_update_nth [of i lhs "\<lambda>i v. max v (rhs ! i)" N] by simp

lemma le_loop_iff: "le_loop is lhs rhs \<longleftrightarrow> (\<forall>i\<in>set is. lhs ! i \<le> rhs ! i)"
  by (induction "is") auto

lemma vc_le_iff: "vc_le N lhs rhs \<longleftrightarrow> (\<forall>i<N. lhs ! i \<le> rhs ! i)"
  by (auto simp: vc_le_def le_loop_iff)

lemma vc_gt_iff: "vc_gt N lhs rhs \<longleftrightarrow> (\<exists>i<N. lhs ! i > rhs ! i)"
  by (auto simp: vc_gt_def vc_le_iff not_le)

lemma length_thread_vc_new: "length (thread_vc (new_Analyzer N)) = N"
  by (simp add: new_Analyzer_def fold_upt_update_length [of "\<lambda>i c. c[i := 1]"])

lemma nth_thread_vc_new:
  "i < N \<Longrightarrow> thread_vc (new_Analyzer N) ! i = (FixedVectorClock N)[i := 1]"
  by (simp add: new_Analyzer_def fold_upt_update_nth [of _ _ "\<lambda>i c. c[i := 1]"])

lemma length_subscript:
  "(\<forall>k v. m k = Some v \<longrightarrow> length v = N) \<Longrightarrow> length (subscript N m k) = N"
  by (simp add: subscript_def FixedVectorClock_def split: option.splits)

lemma Read_Inr:
  assumes "Read N t x a = Inr a'"
  shows "0 \<le> t \<and> nat t < length (thread_vc a) \<and> nat t < length (thread_vc a ! nat t)
         \<and> nat t < length (subscript N (read_vc a) x)"
    and "a' = a\<lparr>read_vc := (read_vc a)(x \<mapsto> (subscript N (read_vc a) x)[nat t := diag a (nat t)]),
                write_vc := subscript_map N (write_vc a) x,
                invoked := invoked a @
                  (if vc_gt N (subscript N (write_vc a) x) (thread_vc a ! nat t) \<and> on_read_violated a
                   then [read_violation t x] else [])\<rparr>"
  using assms
  by (auto simp: Read_def bind_result_def at_index_def set_index_def Let_def diag_def
      subscript_def subscript_map_def split: if_splits option.splits)

lemma Write_Inr:
  assumes "Write N t x a = Inr a'"
  shows "0 \<le> t \<and> nat t < length (thread_vc a) \<and> nat t < length (thread_vc a ! nat t)
         \<and> nat t < length (subscript N (write_vc a) x)"
    and "write_vc a' = (write_vc a)(x \<mapsto> (subscript N (write_vc a) x)[nat t := diag a (nat t)])"
    and "read_vc a' = read_vc a \<or> read_vc a' = subscript_map N (read_vc a) x"
    and "thread_vc a' = thread_vc a" "lock_vc a' = lock_vc a" "variables a' = variables a"
        "locks a' = locks a" "on_read_violated a' = on_read_violated a"
        "on_write_violated a' = on_write_violated a"
  using assms
  by (auto simp: Write_def bind_result_def at_index_def set_index_def Let_def diag_def
      split: if_splits)

lemma Acquire_Inr:
  assumes "Acquire N t m a = Inr a'"
  shows "0 \<le> t \<and> nat t < length (thread_vc a)"
    and "a' = a\<lparr>lock_vc := subscript_map N (lock_vc a) m,
                thread_vc := (thread_vc a)[nat t :=
                   vc_join N (thread_vc a ! nat t) (subscript N (lock_vc a) m)]\<rparr>"
  using assms
  by (auto simp: Acquire_def bind_result_def at_index_def set_index_def Let_def
      subscript_def subscript_map_def split: if_splits option.splits)

lemma Release_Inr:
  assumes "Release N t m a = Inr a'"
  shows "0 \<le> t \<and> nat t < length (thread_vc a) \<and> nat t < length (thread_vc a ! nat t)
         \<and> diag a (nat t) \<noteq> INT_MAX"
    and "a' = a\<lparr>thread_vc := (thread_vc a)[nat t := (thread_vc a ! nat t)[nat t := diag a (nat t) + 1]],
                lock_vc := (lock_vc a)(m \<mapsto> (thread_vc a ! nat t)[nat t := diag a (nat t) + 1])\<rparr>"
  using assms
  by (auto simp: Release_def bind_result_def at_index_def set_index_def Let_def diag_def
      pre_increment_def split: if_splits)

subsection \<open>Invariants of the reachable states\<close>

lemma below_zero: "(\<forall>t<N. 0 \<le> diag a t) \<Longrightarrow> below N a (FixedVectorClock N)"
  by (simp add: below_def FixedVectorClock_def)

lemma below_subscript:
  assumes "\<forall>t<N. 1 \<le> diag a t" and "\<forall>k v. m k = Some v \<longrightarrow> below N a v"
  shows "below N a (subscript N m k)"
proof (cases "m k")
  case None
  have "\<forall>t<N. 0 \<le> diag a t" using assms(1) by force
  then show ?thesis using None by (simp add: subscript_def below_zero)
next
  case (Some v)
  then show ?thesis using assms(2) by (simp add: subscript_def)
qed

lemma maps_new:
  "read_vc (new_Analyzer N) = Map.empty" "write_vc (new_Analyzer N) = Map.empty"
  "lock_vc (new_Analyzer N) = Map.empty"
  by (simp_all add: new_Analyzer_def)

lemma well_sized_new: "well_sized N (new_Analyzer N)"
  unfolding well_sized_def
  by (simp add: length_thread_vc_new nth_thread_vc_new FixedVectorClock_def maps_new)

lemma diag_new: "t < N \<Longrightarrow> diag (new_Analyzer N) t = 1"
  by (simp add: diag_def nth_thread_vc_new FixedVectorClock_def)

lemma clock_inv_new: "clock_inv N (new_Analyzer N)"
  unfolding clock_inv_def below_def
  by (simp add: diag_new maps_new nth_thread_vc_new FixedVectorClock_def nth_list_update)

lemma well_sized_Register_Variable: "well_sized N a \<Longrightarrow> well_sized N (Register_Variable N x a)"
  by (auto simp: well_sized_def Register_Variable_def emplace_def FixedVectorClock_def
      split: option.splits if_splits)

lemma well_sized_Register_Lock: "well_sized N a \<Longrightarrow> well_sized N (Register_Lock N m a)"
  by (auto simp: well_sized_def Register_Lock_def emplace_def FixedVectorClock_def
      split: option.splits if_splits)

lemma well_sized_Read:
  assumes "well_sized N a" and "Read N t x a = Inr a'"
  shows "well_sized N a'"
proof -
  note r = Read_Inr [OF assms(2)]
  have "length (subscript N (read_vc a) x) = N" "length (subscript N (write_vc a) x) = N"
    using assms(1) by (simp_all add: well_sized_def length_subscript)
  then show ?thesis
    using assms(1) unfolding r(2) well_sized_def
    by (auto simp: subscript_map_def split: if_splits)
qed

lemma well_sized_Write:
  assumes "well_sized N a" and "Write N t x a = Inr a'"
  shows "well_sized N a'"
proof -
  note r = Write_Inr [OF assms(2)]
  have "length (subscript N (read_vc a) x) = N" "length (subscript N (write_vc a) x) = N"
    using assms(1) by (simp_all add: well_sized_def length_subscript)
  then show ?thesis
    using assms(1) r(3) unfolding well_sized_def r(2) r(4) r(5)
    by (auto simp: subscript_map_def split: if_splits)
qed

lemma well_sized_Acquire:
  assumes "well_sized N a" and "Acquire N t m a = Inr a'"
  shows "well_sized N a'"
proof -
  note r = Acquire_Inr [OF assms(2)]
  have "length (subscript N (lock_vc a) m) = N"
    using assms(1) by (simp_all add: well_sized_def length_subscript)
  then show ?thesis
    using assms(1) r(1) unfolding r(2) well_sized_def
    by (auto simp: subscript_map_def nth_list_update length_vc_join split: if_splits)
qed

lemma well_sized_Release:
  assumes "well_sized N a" and "Release N t m a = Inr a'"
  shows "well_sized N a'"
  using assms(1) Release_Inr(1) [OF assms(2)] unfolding Release_Inr(2) [OF assms(2)] well_sized_def
  by (auto simp: nth_list_update split: if_splits)

lemma well_sized_handlers:
  "well_sized N (SetReadViolationHandler f a) = well_sized N a"
  "well_sized N (SetWriteViolationHandler f a) = well_sized N a"
  by (simp_all add: SetReadViolationHandler_def SetWriteViolationHandler_def well_sized_def)

lemma well_sized_step: "well_sized N a \<Longrightarrow> step N e a = Inr a' \<Longrightarrow> well_sized N a'"
  by (cases e)
    (auto simp: well_sized_Register_Variable well_sized_Register_Lock well_sized_handlers
      intro: well_sized_Read well_sized_Write well_sized_Acquire well_sized_Release)

lemma reachable_well_sized: "reachable N a \<Longrightarrow> well_sized N a"
  by (induction rule: reachable.induct) (auto simp: well_sized_new well_sized_step)


lemma clock_inv_Register_Variable:
  "clock_inv N a \<Longrightarrow> clock_inv N (Register_Variable N x a)"
  unfolding clock_inv_def below_def diag_def
  by (auto simp: Register_Variable_def emplace_def FixedVectorClock_def
      split: option.splits if_splits)

lemma clock_inv_Register_Lock:
  "clock_inv N a \<Longrightarrow> clock_inv N (Register_Lock N m a)"
  unfolding clock_inv_def below_def diag_def
  by (auto simp: Register_Lock_def emplace_def FixedVectorClock_def
      split: option.splits if_splits)

lemma clock_inv_handlers:
  "clock_inv N (SetReadViolationHandler f a) = clock_inv N a"
  "clock_inv N (SetWriteViolationHandler f a) = clock_inv N a"
  by (simp_all add: SetReadViolationHandler_def SetWriteViolationHandler_def clock_inv_def
      below_def diag_def)

lemma below_update_own:
  assumes "below N a v"
  shows "below N a (v[t := diag a t])"
proof (cases "t < length v")
  case True
  then show ?thesis using assms by (auto simp: below_def nth_list_update)
next
  case False
  then have "v[t := diag a t] = v" by (simp add: not_less list_update_beyond)
  then show ?thesis using assms by simp
qed

lemma below_cong: "thread_vc a' = thread_vc a \<Longrightarrow> below N a' v = below N a v"
  by (simp add: below_def diag_def)

lemma clock_inv_Read:
  assumes "clock_inv N a" and "Read N t x a = Inr a'"
  shows "clock_inv N a'"
proof -
  note r = Read_Inr [OF assms(2)]
  have tv: "thread_vc a' = thread_vc a" by (simp add: r(2))
  have d: "diag a' = diag a" by (simp add: diag_def fun_eq_iff tv)
  have pos: "\<forall>t<N. 1 \<le> diag a t" using assms(1) by (simp add: clock_inv_def)
  have rx: "below N a (subscript N (read_vc a) x)"
    using assms(1) pos by (intro below_subscript) (auto simp: clock_inv_def)
  have wx: "below N a (subscript N (write_vc a) x)"
    using assms(1) pos by (intro below_subscript) (auto simp: clock_inv_def)
  have "\<forall>y v. read_vc a' y = Some v \<longrightarrow> below N a v"
    using assms(1) below_update_own [OF rx] by (auto simp: r(2) clock_inv_def)
  moreover have "\<forall>y v. write_vc a' y = Some v \<longrightarrow> below N a v"
    using assms(1) wx by (auto simp: r(2) clock_inv_def subscript_map_def split: if_splits)
  moreover have "lock_vc a' = lock_vc a" by (simp add: r(2))
  ultimately show ?thesis
    using assms(1) unfolding clock_inv_def d tv below_cong [OF tv] by simp
qed

lemma clock_inv_Write:
  assumes "clock_inv N a" and "Write N t x a = Inr a'"
  shows "clock_inv N a'"
proof -
  note r = Write_Inr [OF assms(2)]
  have tv: "thread_vc a' = thread_vc a" by (simp add: r(4))
  have d: "diag a' = diag a" by (simp add: diag_def fun_eq_iff tv)
  have pos: "\<forall>t<N. 1 \<le> diag a t" using assms(1) by (simp add: clock_inv_def)
  have rx: "below N a (subscript N (read_vc a) x)"
    using assms(1) pos by (intro below_subscript) (auto simp: clock_inv_def)
  have wx: "below N a (subscript N (write_vc a) x)"
    using assms(1) pos by (intro below_subscript) (auto simp: clock_inv_def)
  have "\<forall>y v. write_vc a' y = Some v \<longrightarrow> below N a v"
    using assms(1) below_update_own [OF wx] by (auto simp: r(2) clock_inv_def)
  moreover have "\<forall>y v. read_vc a' y = Some v \<longrightarrow> below N a v"
    using assms(1) rx r(3) by (auto simp: clock_inv_def subscript_map_def split: if_splits)
  ultimately show ?thesis
    using assms(1) unfolding clock_inv_def d tv below_cong [OF tv] r(5) by simp
qed

lemma clock_inv_Acquire:
  assumes "well_sized N a" and "clock_inv N a" and "Acquire N t m a = Inr a'"
  shows "clock_inv N a'"
proof -
  note r = Acquire_Inr [OF assms(3)]
  define lm where "lm = subscript N (lock_vc a) m"
  define ct where "ct = thread_vc a ! nat t"
  have tN: "nat t < N" and len: "length (thread_vc a) = N"
    using r(1) assms(1) by (simp_all add: well_sized_def)
  have lct: "length ct = N" using assms(1) tN by (simp add: well_sized_def ct_def)
  have pos: "\<forall>t<N. 1 \<le> diag a t" using assms(2) by (simp add: clock_inv_def)
  have lmb: "below N a lm"
    unfolding lm_def using assms(2) pos by (intro below_subscript) (auto simp: clock_inv_def)
  have ctb: "below N a ct" using assms(2) tN by (simp add: clock_inv_def ct_def)
  have tv: "thread_vc a' = (thread_vc a)[nat t := vc_join N ct lm]"
    by (simp add: r(2) ct_def lm_def)
  have jn: "\<forall>i<N. vc_join N ct lm ! i = max (ct ! i) (lm ! i)"
    by (simp add: nth_vc_join lct)
  have own: "vc_join N ct lm ! nat t = diag a (nat t)"
    using jn tN lmb by (simp add: below_def ct_def diag_def max_absorb1)
  have d: "\<forall>u<N. diag a' u = diag a u"
  proof (intro allI impI)
    fix u assume "u < N"
    show "diag a' u = diag a u"
    proof (cases "u = nat t")
      case True
      then show ?thesis using own len tN by (simp add: diag_def tv)
    next
      case False
      then show ?thesis by (simp add: diag_def tv)
    qed
  qed
  have b: "\<And>v. below N a' v = below N a v" using d by (simp add: below_def)
  have jb: "below N a (vc_join N ct lm)"
    using jn lmb ctb by (simp add: below_def)
  have rows: "\<forall>u<N. below N a (thread_vc a' ! u)"
  proof (intro allI impI)
    fix u assume u: "u < N"
    show "below N a (thread_vc a' ! u)"
    proof (cases "u = nat t")
      case True
      then show ?thesis using jb len tN by (simp add: tv)
    next
      case False
      then show ?thesis using assms(2) u by (simp add: tv clock_inv_def)
    qed
  qed
  have locks: "\<forall>k v. lock_vc a' k = Some v \<longrightarrow> below N a v"
    using assms(2) lmb by (auto simp: r(2) clock_inv_def subscript_map_def lm_def split: if_splits)
  have "read_vc a' = read_vc a" "write_vc a' = write_vc a" by (simp_all add: r(2))
  then show ?thesis
    using assms(2) rows locks d unfolding clock_inv_def b by simp
qed

lemma clock_inv_Release:
  assumes "well_sized N a" and "clock_inv N a" and "Release N t m a = Inr a'"
  shows "clock_inv N a'"
proof -
  note r = Release_Inr [OF assms(3)]
  define ct where "ct = (thread_vc a ! nat t)[nat t := diag a (nat t) + 1]"
  have tN: "nat t < N" and len: "length (thread_vc a) = N"
    using r(1) assms(1) by (simp_all add: well_sized_def)
  have lrow: "length (thread_vc a ! nat t) = N" using assms(1) tN by (simp add: well_sized_def)
  have tv: "thread_vc a' = (thread_vc a)[nat t := ct]" by (simp add: r(2) ct_def)
  have d: "\<forall>u<N. diag a' u = (if u = nat t then diag a u + 1 else diag a u)"
    using len lrow tN by (auto simp: diag_def tv ct_def nth_list_update)
  have mono: "\<And>v. below N a v \<Longrightarrow> below N a' v"
    using d by (fastforce simp: below_def)
  have ctb: "below N a' ct"
    using assms(2) tN d lrow unfolding below_def ct_def clock_inv_def
    by (auto simp: nth_list_update)
  have rows: "\<forall>u<N. below N a' (thread_vc a' ! u)"
  proof (intro allI impI)
    fix u assume u: "u < N"
    show "below N a' (thread_vc a' ! u)"
    proof (cases "u = nat t")
      case True
      then show ?thesis using ctb len tN by (simp add: tv)
    next
      case False
      then show ?thesis using assms(2) u mono by (simp add: tv clock_inv_def)
    qed
  qed
  have locks: "\<forall>k v. lock_vc a' k = Some v \<longrightarrow> below N a' v"
    using assms(2) ctb mono by (auto simp: r(2) clock_inv_def ct_def split: if_splits)
  have "read_vc a' = read_vc a" "write_vc a' = write_vc a" by (simp_all add: r(2))
  moreover have "\<forall>t<N. 1 \<le> diag a' t" using assms(2) d by (auto simp: clock_inv_def)
  ultimately show ?thesis
    using assms(2) rows locks mono unfolding clock_inv_def by simp
qed

lemma clock_inv_step:
  "well_sized N a \<Longrightarrow> clock_inv N a \<Longrightarrow> step N e a = Inr a' \<Longrightarrow> clock_inv N a'"
  by (cases e)
    (auto simp: clock_inv_Register_Variable clock_inv_Register_Lock clock_inv_handlers
      intro: clock_inv_Read clock_inv_Write clock_inv_Acquire clock_inv_Release)

lemma reachable_clock_inv: "reachable N a \<Longrightarrow> clock_inv N a"
  by (induction rule: reachable.induct)
    (auto simp: clock_inv_new intro: clock_inv_step reachable_well_sized)

subsection \<open>Reachable states are the results of runs\<close>

lemma run_append: "run N (es @ es') a = bind_result (run N es a) (run N es')"
  by (induction es arbitrary: a) (auto simp: bind_result_def split: sum.splits)

lemma run_reachable: "reachable N a \<Longrightarrow> run N es a = Inr a' \<Longrightarrow> reachable N a'"
proof (induction es arbitrary: a)
  case Nil
  then show ?case by simp
next
  case (Cons e es)
  then show ?case
    by (auto simp: bind_result_def split: sum.splits intro: reachable_step)
qed

lemma reachable_model_state: "reachable N (model_state N es)"
  unfolding model_state_def
  by (auto split: sum.splits intro: reachable_init run_reachable [OF reachable_init])

lemma reachable_iff_run: "reachable N a \<longleftrightarrow> (\<exists>es. run N es (new_Analyzer N) = Inr a)"
proof
  assume "reachable N a"
  then show "\<exists>es. run N es (new_Analyzer N) = Inr a"
  proof (induction rule: reachable.induct)
    case reachable_init
    have "run N [] (new_Analyzer N) = Inr (new_Analyzer N)" by simp
    then show ?case by blast
  next
    case (reachable_step a e a')
    then obtain es where "run N es (new_Analyzer N) = Inr a" by blast
    then have "run N (es @ [e]) (new_Analyzer N) = Inr a'"
      using reachable_step(2) by (simp add: run_append bind_result_def)
    then show ?case by blast
  qed
next
  assume "\<exists>es. run N es (new_Analyzer N) = Inr a"
  then show "reachable N a" using run_reachable [OF reachable_init] by blast
qed

lemma main_start_eq: "model_state 2 main_setup = main_start"
  by (simp add: model_state_def main_setup_def main_start_def bind_result_def)

subsection \<open>The scenarios of main.cpp\<close>

text \<open>
  Claim C1.  From the state main.cpp starts with (\<open>C[0] = <1,0>\<close>, \<open>C[1] = <0,1>\<close>,
  \<open>R[x] = W[x] = L[m] = <0,0>\<close>, both handlers installed) the lock-protected sequence
  \<open>acq(0,m) rd(0,x) wr(0,x) rel(0,m) acq(1,m) rd(1,x) wr(1,x) rel(1,m)\<close> runs to its
  end, calls neither handler, and leaves \<open>L[m] = <2,2>\<close>, \<open>C[0] = <2,0>\<close> and
  \<open>C[1] = <2,2>\<close>.
\<close>

theorem protect_by_lock_no_violation:
  "thread_vc main_start = [[1, 0], [0, 1]]
   \<and> read_vc main_start (Variable ''x'') = Some [0, 0]
   \<and> write_vc main_start (Variable ''x'') = Some [0, 0]
   \<and> lock_vc main_start (Lock ''m'') = Some [0, 0]
   \<and> (\<exists>a. run 2 PROTECT_BY_LOCK main_start = Inr a
          \<and> invoked a = []
          \<and> lock_vc a (Lock ''m'') = Some [2, 2]
          \<and> thread_vc a = [[2, 0], [2, 2]])"
  by (simp add: PROTECT_BY_LOCK_def main_start_def analyzer_defs eval_nat_numeral Let_def)

lemmas run_defs = model_state_def main_setup_def analyzer_defs

subsection \<open>The clocks of a variable stay below the thread's own time\<close>

text \<open>
  Claim C3.  In every state reachable from a fresh analyzer by any sequence of calls,
  for every variable \<open>x\<close> and every thread \<open>t\<close>: \<open>R[x][t] \<le> C[t][t]\<close> and
  \<open>W[x][t] \<le> C[t][t]\<close>.  \<open>R[x]\<close> and \<open>W[x]\<close> are read the way \<open>read_vc_[x]\<close> and
  \<open>write_vc_[x]\<close> read them, so a variable without an entry counts with the zero clock.
\<close>

theorem read_write_clock_below_own_time:
  assumes "reachable N a" and "t < N"
  shows "subscript N (read_vc a) x ! t \<le> thread_vc a ! t ! t
         \<and> subscript N (write_vc a) x ! t \<le> thread_vc a ! t ! t"
proof -
  have inv: "clock_inv N a" using assms(1) by (rule reachable_clock_inv)
  have pos: "\<forall>t<N. 1 \<le> diag a t" using inv by (simp add: clock_inv_def)
  have "below N a (subscript N (read_vc a) x)"
    using inv pos by (intro below_subscript) (auto simp: clock_inv_def)
  moreover have "below N a (subscript N (write_vc a) x)"
    using inv pos by (intro below_subscript) (auto simp: clock_inv_def)
  ultimately show ?thesis using assms(2) by (simp add: below_def diag_def)
qed

theorem read_write_clock_below_own_time_witness:
  "reachable 2 (model_state 2 write_release_read)
   \<and> (1::nat) < 2
   \<and> subscript 2 (read_vc (model_state 2 write_release_read)) (Variable ''x'') ! 1 = 2
   \<and> subscript 2 (write_vc (model_state 2 write_release_read)) (Variable ''x'') ! 1 = 1
   \<and> thread_vc (model_state 2 write_release_read) ! 1 ! 1 = 2"
  (is "reachable 2 ?a \<and> _ \<and> ?r \<and> ?w \<and> ?c")
proof -
  have r: "reachable 2 ?a" by (rule reachable_model_state)
  have v: "?r \<and> ?w \<and> ?c"
    by (simp add: write_release_read_def run_defs eval_nat_numeral Let_def)
  show ?thesis
    using r v read_write_clock_below_own_time [OF r, of 1 "Variable ''x''"] by simp
qed

subsection \<open>The thread id as an index\<close>

lemma Read_in_range:
  assumes "well_sized N a" and "0 \<le> t" and "t < int N"
  shows "\<exists>a'. Read N t x a = Inr a'"
proof -
  have "length (subscript N (read_vc a) x) = N"
    using assms(1) by (simp add: well_sized_def length_subscript)
  moreover have "length (thread_vc a) = N" "length (thread_vc a ! nat t) = N"
    using assms by (simp_all add: well_sized_def)
  ultimately show ?thesis
    using assms(2,3) by (simp add: Read_def bind_result_def at_index_def set_index_def Let_def)
qed

lemma Write_in_range:
  assumes "well_sized N a" and "0 \<le> t" and "t < int N"
  shows "\<exists>a'. Write N t x a = Inr a'"
proof -
  have "length (subscript N (write_vc a) x) = N"
    using assms(1) by (simp add: well_sized_def length_subscript)
  moreover have "length (thread_vc a) = N" "length (thread_vc a ! nat t) = N"
    using assms by (simp_all add: well_sized_def)
  ultimately show ?thesis
    using assms(2,3) by (simp add: Write_def bind_result_def at_index_def set_index_def Let_def)
qed

lemma Acquire_in_range:
  assumes "well_sized N a" and "0 \<le> t" and "t < int N"
  shows "\<exists>a'. Acquire N t m a = Inr a'"
  using assms
  by (simp add: Acquire_def bind_result_def at_index_def set_index_def Let_def well_sized_def)

lemma Release_in_range:
  assumes "well_sized N a" and "0 \<le> t" and "t < int N"
  shows "if diag a (nat t) = INT_MAX then Release N t m a = Inl SignedOverflow
         else (\<exists>a'. Release N t m a = Inr a')"
proof -
  have "length (thread_vc a) = N" "length (thread_vc a ! nat t) = N"
    using assms by (simp_all add: well_sized_def)
  then show ?thesis
    using assms(2,3)
    by (simp add: Release_def bind_result_def at_index_def set_index_def pre_increment_def diag_def)
qed

lemma out_of_range:
  assumes "length (thread_vc a) = N" and "\<not> (0 \<le> t \<and> t < int N)"
  shows "Read N t x a = Inl IndexOutOfRange" "Write N t x a = Inl IndexOutOfRange"
    "Acquire N t m a = Inl IndexOutOfRange" "Release N t m a = Inl IndexOutOfRange"
  using assms
  by (auto simp: Read_def Write_def Acquire_def Release_def bind_result_def at_index_def Let_def)

text \<open>
  Claim C10.  \<open>Read\<close>, \<open>Write\<close>, \<open>Acquire\<close> and \<open>Release\<close> index the array of thread
  clocks with the thread id they are given and check no bound.  In a reachable state
  every such access is in bounds when \<open>0 \<le> t < NThread\<close>: the three operations
  without arithmetic return a state, and \<open>Release\<close> does not fail on an index.  The
  precondition is needed: with any other \<open>t\<close> each of the four operations reads outside
  the array.
\<close>

theorem thread_id_in_bounds_iff:
  assumes "reachable N a"
  shows "(0 \<le> t \<and> t < int N \<longrightarrow>
            (\<exists>a'. Read N t x a = Inr a') \<and> (\<exists>a'. Write N t x a = Inr a')
            \<and> (\<exists>a'. Acquire N t m a = Inr a') \<and> Release N t m a \<noteq> Inl IndexOutOfRange)
       \<and> (\<not> (0 \<le> t \<and> t < int N) \<longrightarrow>
            Read N t x a = Inl IndexOutOfRange \<and> Write N t x a = Inl IndexOutOfRange
            \<and> Acquire N t m a = Inl IndexOutOfRange \<and> Release N t m a = Inl IndexOutOfRange)"
proof -
  have ws: "well_sized N a" using assms by (rule reachable_well_sized)
  then have len: "length (thread_vc a) = N" by (simp add: well_sized_def)
  have "Release N t m a \<noteq> Inl IndexOutOfRange" if "0 \<le> t" "t < int N"
    using Release_in_range [OF ws that, of m] by (auto split: if_splits)
  then show ?thesis
    using Read_in_range [OF ws] Write_in_range [OF ws] Acquire_in_range [OF ws]
      out_of_range [OF len]
    by blast
qed

theorem thread_id_in_bounds_iff_witness:
  "reachable 2 (model_state 2 write_release_read)
   \<and> (\<exists>a'. Read 2 1 (Variable ''x'') (model_state 2 write_release_read) = Inr a')
   \<and> (\<exists>a'. Write 2 1 (Variable ''x'') (model_state 2 write_release_read) = Inr a')
   \<and> (\<exists>a'. Acquire 2 1 (Lock ''m'') (model_state 2 write_release_read) = Inr a')
   \<and> Release 2 1 (Lock ''m'') (model_state 2 write_release_read) \<noteq> Inl IndexOutOfRange
   \<and> Read 2 2 (Variable ''x'') (model_state 2 write_release_read) = Inl IndexOutOfRange
   \<and> Write 2 2 (Variable ''x'') (model_state 2 write_release_read) = Inl IndexOutOfRange
   \<and> Acquire 2 (- 1) (Lock ''m'') (model_state 2 write_release_read) = Inl IndexOutOfRange
   \<and> Release 2 (- 1) (Lock ''m'') (model_state 2 write_release_read) = Inl IndexOutOfRange"
proof -
  have r: "reachable 2 (model_state 2 write_release_read)" by (rule reachable_model_state)
  show ?thesis
    using r thread_id_in_bounds_iff [OF r, of 1 "Variable ''x''" "Lock ''m''"]
      thread_id_in_bounds_iff [OF r, of 2 "Variable ''x''" "Lock ''m''"]
      thread_id_in_bounds_iff [OF r, of "- 1" "Variable ''x''" "Lock ''m''"]
    by simp
qed

subsection \<open>Release\<close>

text \<open>
  Claim C4.  Release is monotonic in the releasing thread's own component: in a
  reachable state, after \<open>Release(t, m)\<close> the value \<open>L[m][t]\<close> is strictly greater
  than before (\<open>L[m]\<close> read as \<open>lock_vc_[m]\<close> reads it: the zero clock for a lock
  without an entry).  \<open>Release\<close> returns for every thread id in range whose own time
  is not \<open>INT_MAX\<close>, where \<open>++\<close> on the \<open>int\<close> is undefined.
\<close>

theorem release_increases_lock_clock:
  assumes "reachable N a"
  shows "(0 \<le> t \<and> t < int N \<and> thread_vc a ! nat t ! nat t \<noteq> INT_MAX \<longrightarrow>
            (\<exists>a'. Release N t m a = Inr a'))
       \<and> (\<forall>a'. Release N t m a = Inr a' \<longrightarrow>
            subscript N (lock_vc a) m ! nat t < subscript N (lock_vc a') m ! nat t)"
proof (intro conjI impI allI)
  have ws: "well_sized N a" using assms by (rule reachable_well_sized)
  show "\<exists>a'. Release N t m a = Inr a'"
    if "0 \<le> t \<and> t < int N \<and> thread_vc a ! nat t ! nat t \<noteq> INT_MAX"
    using Release_in_range [OF ws, of t m] that by (simp add: diag_def)
  fix a'
  assume rel: "Release N t m a = Inr a'"
  note r = Release_Inr [OF rel]
  have tN: "nat t < N" using r(1) ws by (simp add: well_sized_def)
  have inv: "clock_inv N a" using assms by (rule reachable_clock_inv)
  have pos: "\<forall>t<N. 1 \<le> diag a t" using inv by (simp add: clock_inv_def)
  have "below N a (subscript N (lock_vc a) m)"
    using inv pos by (intro below_subscript) (auto simp: clock_inv_def)
  then have old: "subscript N (lock_vc a) m ! nat t \<le> diag a (nat t)"
    using tN by (simp add: below_def)
  have new: "subscript N (lock_vc a') m ! nat t = diag a (nat t) + 1"
    using r(1) by (simp add: r(2) subscript_def)
  show "subscript N (lock_vc a) m ! nat t < subscript N (lock_vc a') m ! nat t"
    using old new by simp
qed

theorem release_increases_lock_clock_witness:
  "reachable 2 (model_state 2 write_release_read)
   \<and> thread_vc (model_state 2 write_release_read) ! nat 1 ! nat 1 \<noteq> INT_MAX
   \<and> (\<exists>a'. Release 2 1 (Lock ''m'') (model_state 2 write_release_read) = Inr a'
          \<and> subscript 2 (lock_vc (model_state 2 write_release_read)) (Lock ''m'') ! nat 1 = 2
          \<and> subscript 2 (lock_vc a') (Lock ''m'') ! nat 1 = 3)"
  (is "reachable 2 ?a \<and> ?c \<and> ?e")
proof -
  have r: "reachable 2 ?a" by (rule reachable_model_state)
  have e: "?c \<and> ?e"
    by (simp add: write_release_read_def run_defs eval_nat_numeral Let_def)
  show ?thesis
    using r e release_increases_lock_clock [OF r, of 1 "Lock ''m''"] by simp
qed

subsection \<open>A read right after the same thread's write\<close>

text \<open>
  Claim C2 says that \<open>Write(t, x)\<close> followed at once by \<open>Read(t, x)\<close> never calls the
  read-violation handler.  It does when another thread has written \<open>x\<close> without
  synchronisation before: thread 1 writes \<open>x\<close>, then thread 0 writes and reads it, with
  both handlers installed and \<open>x\<close> registered.  The write of thread 0 is reported, and
  so is its read, since \<open>W[x] = <1,1>\<close> is still not below \<open>C[0] = <1,0>\<close>.
\<close>

theorem read_after_own_write_counterexample:
  "map_sum id invoked
     (run 2 ([set_read_handler True, set_write_handler True,
              reg_var (Variable ''x''), reg_lock (Lock ''m'')]
             @ [wr 1 (Variable ''x'')] @ [wr 0 (Variable ''x''), rd 0 (Variable ''x'')])
        (new_Analyzer 2))
     = Inr [write_violation 0 (Variable ''x''), read_violation 0 (Variable ''x'')]"
  by (simp add: analyzer_defs eval_nat_numeral Let_def)

text \<open>
  Claim C2 as amended.  In a reachable state, for a thread id in range, \<open>Write(t, x)\<close>
  and then \<open>Read(t, x)\<close> both return, and the read calls the read-violation handler
  exactly when a handler is installed and some other thread \<open>u \<noteq> t\<close> has
  \<open>W[x][u] > C[t][u]\<close> in the state before the write.  The thread's own write is never
  the cause, and there is no call when \<open>W[x][u] \<le> C[t][u]\<close> for all \<open>u \<noteq> t\<close>.
\<close>

theorem read_after_own_write:
  assumes "reachable N a" and "0 \<le> t" and "t < int N"
  shows "\<exists>a1 a2. Write N t x a = Inr a1 \<and> Read N t x a1 = Inr a2
           \<and> invoked a2 = invoked a1 @
                (if on_read_violated a
                    \<and> (\<exists>u<N. u \<noteq> nat t
                          \<and> thread_vc a ! nat t ! u < subscript N (write_vc a) x ! u)
                 then [read_violation t x] else [])"
proof -
  have ws: "well_sized N a" using assms(1) by (rule reachable_well_sized)
  obtain a1 where w: "Write N t x a = Inr a1"
    using Write_in_range [OF ws assms(2,3)] by blast
  have "step N (wr t x) a = Inr a1" using w by simp
  then have "reachable N a1" using assms(1) by (rule reachable_step [rotated])
  then have ws1: "well_sized N a1" by (rule reachable_well_sized)
  obtain a2 where r: "Read N t x a1 = Inr a2"
    using Read_in_range [OF ws1 assms(2,3)] by blast
  note wi = Write_Inr [OF w]
  note ri = Read_Inr [OF r]
  define wx where "wx = subscript N (write_vc a) x"
  define ct where "ct = thread_vc a ! nat t"
  have tN: "nat t < N" using assms(2,3) by simp
  have lwx: "length wx = N" using ws by (simp add: wx_def well_sized_def length_subscript)
  have sub1: "subscript N (write_vc a1) x = wx[nat t := ct ! nat t]"
    by (simp add: wi(2) subscript_def wx_def ct_def diag_def)
  have pt: "ct ! i < wx[nat t := ct ! nat t] ! i \<longleftrightarrow> i \<noteq> nat t \<and> ct ! i < wx ! i"
    if "i < N" for i
    using that tN lwx by (simp add: nth_list_update)
  have "vc_gt N (subscript N (write_vc a1) x) (thread_vc a1 ! nat t)
        \<longleftrightarrow> (\<exists>u<N. u \<noteq> nat t \<and> ct ! u < wx ! u)"
    unfolding sub1 wi(4) vc_gt_iff ct_def [symmetric]
    using pt by blast
  then have "invoked a2 = invoked a1 @
      (if on_read_violated a \<and> (\<exists>u<N. u \<noteq> nat t \<and> ct ! u < wx ! u)
       then [read_violation t x] else [])"
    by (simp add: ri(2) wi(8))
  then show ?thesis using w r by (simp add: wx_def ct_def)
qed

theorem read_after_own_write_witness:
  "reachable 2 (model_state 2 unordered_write) \<and> (0::int) \<le> 1 \<and> (1::int) < int 2
   \<and> (\<exists>a1 a2. Write 2 1 (Variable ''x'') (model_state 2 unordered_write) = Inr a1
          \<and> Read 2 1 (Variable ''x'') a1 = Inr a2 \<and> invoked a2 = invoked a1)
   \<and> (\<exists>a1 a2. Write 2 0 (Variable ''x'') (model_state 2 unordered_write) = Inr a1
          \<and> Read 2 0 (Variable ''x'') a1 = Inr a2
          \<and> invoked a2 = invoked a1 @ [read_violation 0 (Variable ''x'')])"
  (is "reachable 2 ?a \<and> _")
proof -
  have r: "reachable 2 ?a" by (rule reachable_model_state)
  have v: "on_read_violated ?a" "thread_vc ?a = [[1, 0], [0, 1]]"
    "subscript 2 (write_vc ?a) (Variable ''x'') = [0, 1]"
    by (simp_all add: unordered_write_def run_defs eval_nat_numeral Let_def)
  have c1: "\<not> (\<exists>u<2::nat. u \<noteq> nat 1 \<and> [[1, 0], [0, 1]] ! nat 1 ! u < [0, 1 :: int] ! u)"
    by (simp add: less_2_cases_iff)
  have c0: "\<exists>u<2::nat. u \<noteq> nat 0 \<and> [[1, 0], [0, 1]] ! nat 0 ! u < [0, 1 :: int] ! u"
    by (rule exI [of _ 1]) simp
  show ?thesis
    using r c0 c1 read_after_own_write [OF r, of 1 "Variable ''x''"]
      read_after_own_write [OF r, of 0 "Variable ''x''"]
    by (simp add: v)
qed

subsection \<open>Registering twice\<close>

lemma dom_subscript_map: "dom (subscript_map N m k) = insert k (dom m)"
  by (simp add: subscript_map_def)

lemma dom_emplace: "dom (emplace m k v) = insert k (dom m)"
  by (auto simp: emplace_def split: option.splits)

lemma registered_inv_Register:
  "registered_inv a \<Longrightarrow> registered_inv (Register_Variable N x a)"
  "registered_inv a \<Longrightarrow> registered_inv (Register_Lock N m a)"
  by (simp_all add: registered_inv_def Register_Variable_def Register_Lock_def dom_emplace
      subset_insertI2)

lemma registered_inv_handlers:
  "registered_inv (SetReadViolationHandler f a) = registered_inv a"
  "registered_inv (SetWriteViolationHandler f a) = registered_inv a"
  by (simp_all add: registered_inv_def SetReadViolationHandler_def SetWriteViolationHandler_def)

lemma registered_inv_step:
  assumes "registered_inv a" and "step N e a = Inr a'"
  shows "registered_inv a'"
proof (cases e)
  case (rd t x)
  then have "Read N t x a = Inr a'" using assms(2) by simp
  note r = Read_Inr(2) [OF this]
  show ?thesis using assms(1) unfolding registered_inv_def r
    by (simp add: dom_subscript_map subset_insertI2)
next
  case (wr t x)
  then have "Write N t x a = Inr a'" using assms(2) by simp
  note r = Write_Inr [OF this]
  have "dom (read_vc a) \<subseteq> dom (read_vc a')"
    using r(3) by (rule disjE) (simp_all add: dom_subscript_map subset_insertI)
  then show ?thesis using assms(1) unfolding registered_inv_def r(2) r(5) r(6) r(7)
    by (simp add: subset_insertI2) blast
next
  case (acq t m)
  then have "Acquire N t m a = Inr a'" using assms(2) by simp
  note r = Acquire_Inr(2) [OF this]
  show ?thesis using assms(1) unfolding registered_inv_def r
    by (simp add: dom_subscript_map subset_insertI2)
next
  case (rel t m)
  then have "Release N t m a = Inr a'" using assms(2) by simp
  note r = Release_Inr(2) [OF this]
  show ?thesis using assms(1) unfolding registered_inv_def r
    by (simp add: subset_insertI2)
next
  case (reg_var x)
  then show ?thesis using assms by (auto simp: registered_inv_Register)
next
  case (reg_lock m)
  then show ?thesis using assms by (auto simp: registered_inv_Register)
next
  case (set_read_handler f)
  then show ?thesis using assms by (auto simp: registered_inv_handlers)
next
  case (set_write_handler f)
  then show ?thesis using assms by (auto simp: registered_inv_handlers)
qed

lemma reachable_registered_inv: "reachable N a \<Longrightarrow> registered_inv a"
proof (induction rule: reachable.induct)
  case reachable_init
  show ?case by (simp add: registered_inv_def new_Analyzer_def)
next
  case (reachable_step a e a')
  then show ?case by (auto intro: registered_inv_step)
qed

lemma emplace_present: "k \<in> dom m \<Longrightarrow> emplace m k v = m"
  by (auto simp: emplace_def)

text \<open>
  Claim C5 says that registering an entity that is already registered leaves the
  whole state unchanged, the enumerations of \<open>GetVariables()\<close> and \<open>GetLocks()\<close>
  included.  \<open>Register\<close> calls \<open>push_back\<close> without a test, so after main.cpp's setup a
  second \<open>Register(x)\<close> makes \<open>GetVariables()\<close> return \<open>x\<close> twice, and a second
  \<open>Register(m)\<close> does the same to \<open>GetLocks()\<close>.
\<close>

theorem register_again_counterexample:
  "Variable ''x'' \<in> set (GetVariables (model_state 2 main_setup))
   \<and> Lock ''m'' \<in> set (GetLocks (model_state 2 main_setup))
   \<and> GetVariables (model_state 2 main_setup) = [Variable ''x'']
   \<and> GetVariables (Register_Variable 2 (Variable ''x'') (model_state 2 main_setup))
       = [Variable ''x'', Variable ''x'']
   \<and> GetLocks (model_state 2 main_setup) = [Lock ''m'']
   \<and> GetLocks (Register_Lock 2 (Lock ''m'') (model_state 2 main_setup))
       = [Lock ''m'', Lock ''m'']
   \<and> Register_Variable 2 (Variable ''x'') (model_state 2 main_setup) \<noteq> model_state 2 main_setup
   \<and> Register_Lock 2 (Lock ''m'') (model_state 2 main_setup) \<noteq> model_state 2 main_setup"
proof -
  have v: "variables (model_state 2 main_setup) = [Variable ''x'']"
    and l: "locks (model_state 2 main_setup) = [Lock ''m'']"
    by (simp_all add: run_defs)
  have "variables (Register_Variable 2 (Variable ''x'') (model_state 2 main_setup))
        \<noteq> variables (model_state 2 main_setup)"
    by (simp add: Register_Variable_def v)
  then have nv: "Register_Variable 2 (Variable ''x'') (model_state 2 main_setup)
      \<noteq> model_state 2 main_setup" by metis
  have "locks (Register_Lock 2 (Lock ''m'') (model_state 2 main_setup))
        \<noteq> locks (model_state 2 main_setup)"
    by (simp add: Register_Lock_def l)
  then have nl: "Register_Lock 2 (Lock ''m'') (model_state 2 main_setup)
      \<noteq> model_state 2 main_setup" by metis
  show ?thesis using nv nl
    by (simp add: GetVariables_def GetLocks_def Register_Variable_def Register_Lock_def v l)
qed

text \<open>
  Claim C5 as amended.  In a reachable state, registering a variable (a lock) that is
  already registered changes no clock, no handler and nothing of the other
  enumeration: the state is the old one but for the enumeration of variables (of
  locks), which enumerates the same set of entities.
\<close>

theorem register_again:
  assumes "reachable N a"
  shows "(x \<in> set (GetVariables a) \<longrightarrow>
            Register_Variable N x a = a\<lparr>variables := GetVariables a @ [x]\<rparr>
            \<and> set (GetVariables (Register_Variable N x a)) = set (GetVariables a)
            \<and> GetLocks (Register_Variable N x a) = GetLocks a)
       \<and> (m \<in> set (GetLocks a) \<longrightarrow>
            Register_Lock N m a = a\<lparr>locks := GetLocks a @ [m]\<rparr>
            \<and> set (GetLocks (Register_Lock N m a)) = set (GetLocks a)
            \<and> GetVariables (Register_Lock N m a) = GetVariables a)"
proof -
  have inv: "registered_inv a" using assms by (rule reachable_registered_inv)
  have "x \<in> dom (read_vc a) \<and> x \<in> dom (write_vc a)" if "x \<in> set (variables a)"
    using inv that by (auto simp: registered_inv_def)
  moreover have "m \<in> dom (lock_vc a)" if "m \<in> set (locks a)"
    using inv that by (auto simp: registered_inv_def)
  ultimately show ?thesis
    by (auto simp: GetVariables_def GetLocks_def Register_Variable_def Register_Lock_def
        emplace_present)
qed

theorem register_again_witness:
  "reachable 2 (model_state 2 write_release_read)
   \<and> Variable ''x'' \<in> set (GetVariables (model_state 2 write_release_read))
   \<and> Lock ''m'' \<in> set (GetLocks (model_state 2 write_release_read))
   \<and> Register_Variable 2 (Variable ''x'') (model_state 2 write_release_read)
       = (model_state 2 write_release_read)\<lparr>variables := [Variable ''x'', Variable ''x'']\<rparr>
   \<and> Register_Lock 2 (Lock ''m'') (model_state 2 write_release_read)
       = (model_state 2 write_release_read)\<lparr>locks := [Lock ''m'', Lock ''m'']\<rparr>"
  (is "reachable 2 ?a \<and> _")
proof -
  have r: "reachable 2 ?a" by (rule reachable_model_state)
  have v: "GetVariables ?a = [Variable ''x'']" "GetLocks ?a = [Lock ''m'']"
    by (simp_all add: GetVariables_def GetLocks_def write_release_read_def run_defs
        eval_nat_numeral Let_def)
  show ?thesis
    using r register_again [OF r, of "Variable ''x''" "Lock ''m''"] by (simp add: v)
qed

subsection \<open>Further properties of the fixed-size analyzer\<close>

text \<open>
  The model main.cpp runs without \<open>PROTECT_BY_LOCK\<close>: after \<open>rd(0,x) rd(1,x)\<close> both
  writes \<open>wr(0,x)\<close> and \<open>wr(1,x)\<close> call the write-violation handler, as
  \<^verbatim>\<open>src/djit-plus-vc/README.md\<close> shows in its sample output.
\<close>

theorem unprotected_writes_race:
  "map_sum id invoked
     (run 2 [rd 0 (Variable ''x''), rd 1 (Variable ''x''),
             wr 0 (Variable ''x''), wr 1 (Variable ''x'')] main_start)
     = Inr [write_violation 0 (Variable ''x''), write_violation 1 (Variable ''x'')]"
  by (simp add: main_start_def analyzer_defs eval_nat_numeral Let_def)

text \<open>In every reachable state the own time \<open>C[t][t]\<close> of every thread is at least 1.\<close>

theorem own_time_positive:
  assumes "reachable N a" and "t < N"
  shows "1 \<le> thread_vc a ! t ! t"
  using reachable_clock_inv [OF assms(1)] assms(2) by (simp add: clock_inv_def diag_def)

theorem own_time_positive_witness:
  "reachable 2 (model_state 2 write_release_read) \<and> (1::nat) < 2
   \<and> thread_vc (model_state 2 write_release_read) ! 1 ! 1 = 2"
proof -
  have r: "reachable 2 (model_state 2 write_release_read)" by (rule reachable_model_state)
  have v: "thread_vc (model_state 2 write_release_read) ! 1 ! 1 = 2"
    by (simp add: write_release_read_def run_defs eval_nat_numeral Let_def)
  show ?thesis using r v own_time_positive [OF r, of 1] by simp
qed

section \<open>Properties of the sparse analyzer\<close>

subsection \<open>The clock operations\<close>

lemma map_of_assign: "map_of (assign k v c) = (map_of c)(k \<mapsto> v)"
  by (induction c) (auto simp: fun_eq_iff)

lemma keys_assign: "fst ` set (assign k v c) = insert k (fst ` set c)"
  by (simp add: dom_map_of_conv_image_fst [symmetric] map_of_assign)

lemma set_assign_subset: "set (assign k v c) \<subseteq> insert (k, v) (set c)"
  by (induction c) (auto split: if_splits)

lemma VC_ok_assign: "VC_ok c \<Longrightarrow> VC_ok (assign k v c)"
proof (induction c)
  case Nil
  then show ?case by (simp add: VC_ok_def)
next
  case (Cons p c)
  obtain k' v' where p: "p = (k', v')" by (cases p)
  have ok: "VC_ok c" using Cons.prems by (simp add: VC_ok_def)
  have ih: "VC_ok (assign k v c)" using Cons.IH ok by simp
  have ks: "fst ` set (assign k v c) = insert k (fst ` set c)" by (rule keys_assign)
  show ?case
  proof (cases "k < k'")
    case True
    then show ?thesis using Cons.prems p by (auto simp: VC_ok_def)
  next
    case False
    show ?thesis
    proof (cases "k = k'")
      case True
      then show ?thesis using Cons.prems p by (auto simp: VC_ok_def)
    next
      case ne: False
      then have "k' < k" using False by simp
      then show ?thesis using Cons.prems p ih ne False ks by (auto simp: VC_ok_def)
    qed
  qed
qed

lemma VC_valid_assign: "VC_valid c \<Longrightarrow> 0 < v \<Longrightarrow> VC_valid (assign k v c)"
  using set_assign_subset [of k v c] by (auto simp: VC_valid_def VC_ok_assign)

lemma VC_value_assign: "VC_value (assign k v c) w = (if w = k then v else VC_value c w)"
  by (simp add: VC_value_def VC_find_def map_of_assign)

lemma VC_find_assign: "VC_find (assign k v c) w = (if w = k then Some v else VC_find c w)"
  by (simp add: VC_find_def map_of_assign)

lemma VC_value_subscript: "VC_value (VC_subscript c k) w = VC_value c w"
  by (auto simp: VC_subscript_def VC_value_assign split: option.splits)
    (simp add: VC_value_def)

lemma VC_ok_subscript: "VC_ok c \<Longrightarrow> VC_ok (VC_subscript c k)"
  by (simp add: VC_subscript_def VC_ok_assign split: option.splits)

lemma VC_subscript_present: "VC_find c k \<noteq> None \<Longrightarrow> VC_subscript c k = c"
  by (auto simp: VC_subscript_def)

lemma assign_assign: "assign k v (assign k w c) = assign k v c"
  by (induction c) auto

lemma VC_join_Cons_pos:
  assumes "0 < v"
  shows "VC_join c ((k, v) # rhs) = VC_join (if VC_value c k < v then assign k v c else c) rhs"
proof (cases "VC_find c k")
  case None
  then have s: "VC_subscript c k = assign k 0 c" by (simp add: VC_subscript_def)
  have "VC_value c k = 0" using None by (simp add: VC_value_def)
  then show ?thesis using assms by (simp add: s VC_value_assign assign_assign)
next
  case (Some w)
  then show ?thesis by (simp add: VC_subscript_def)
qed

lemma VC_value_nonneg: "VC_valid c \<Longrightarrow> 0 \<le> VC_value c w"
proof -
  assume v: "VC_valid c"
  show ?thesis
  proof (cases "map_of c w")
    case None
    then show ?thesis by (simp add: VC_value_def VC_find_def)
  next
    case (Some x)
    then have "(w, x) \<in> set c" by (rule map_of_SomeD)
    then have "0 < x" using v by (auto simp: VC_valid_def)
    then show ?thesis using Some by (simp add: VC_value_def VC_find_def)
  qed
qed

lemma VC_valid_join:
  "VC_valid c \<Longrightarrow> \<forall>p\<in>set rhs. 0 < snd p \<Longrightarrow> VC_valid (VC_join c rhs)"
proof (induction rhs arbitrary: c)
  case Nil
  then show ?case by simp
next
  case (Cons p rhs)
  obtain k v where p: "p = (k, v)" by (cases p)
  have v: "0 < v" using Cons.prems(2) p by simp
  have "VC_valid (if VC_value c k < v then assign k v c else c)"
    using Cons.prems(1) v by (simp add: VC_valid_assign)
  then show ?case
    using Cons.IH Cons.prems(2) by (simp add: p VC_join_Cons_pos [OF v] del: VC_join.simps)
qed

lemma VC_find_join_mono:
  "VC_find c w \<noteq> None \<Longrightarrow> VC_find (VC_join c rhs) w \<noteq> None"
proof (induction rhs arbitrary: c)
  case Nil
  then show ?case by simp
next
  case (Cons p rhs)
  obtain k v where p: "p = (k, v)" by (cases p)
  have "VC_find (VC_subscript c k) w \<noteq> None"
    using Cons.prems by (auto simp: VC_subscript_def VC_find_assign split: option.splits)
  then have "VC_find (let c1 = VC_subscript c k
                      in if VC_value c1 k < v then assign k v c1 else c1) w \<noteq> None"
    by (simp add: Let_def VC_find_assign)
  then show ?case using Cons.IH by (simp add: p Let_def)
qed

lemma VC_value_Cons: "VC_value ((k, v) # c) w = (if w = k then v else VC_value c w)"
  by (simp add: VC_value_def VC_find_def)

lemma VC_value_absent: "w \<notin> fst ` set c \<Longrightarrow> VC_value c w = 0"
  using map_of_eq_None_iff [of c w] by (simp add: VC_value_def VC_find_def)

text \<open>\<open>operator |=\<close> is the pointwise maximum, on the clocks the tool builds.\<close>

lemma VC_value_join:
  assumes "distinct (map fst rhs)" and "\<forall>p\<in>set rhs. 0 < snd p" and "\<forall>w. 0 \<le> VC_value c w"
  shows "VC_value (VC_join c rhs) w = max (VC_value c w) (VC_value rhs w)"
  using assms
proof (induction rhs arbitrary: c)
  case Nil
  then show ?case by (simp add: VC_value_def VC_find_def max_absorb1)
next
  case (Cons p rhs)
  obtain k v where p: "p = (k, v)" by (cases p)
  have v: "0 < v" using Cons.prems(2) p by simp
  define c1 where "c1 = (if VC_value c k < v then assign k v c else c)"
  have c1: "VC_value c1 u = (if u = k then max (VC_value c k) v else VC_value c u)" for u
    by (simp add: c1_def VC_value_assign max_def)
  have nn: "\<forall>w. 0 \<le> VC_value c1 w" using Cons.prems(3) v by (simp add: c1 max_def)
  have ih: "VC_value (VC_join c1 rhs) w = max (VC_value c1 w) (VC_value rhs w)"
    using Cons.IH [of c1] Cons.prems(1,2) nn by simp
  have step: "VC_join c (p # rhs) = VC_join c1 rhs"
    by (simp add: p VC_join_Cons_pos [OF v] c1_def del: VC_join.simps)
  have lhs: "VC_value (VC_join c (p # rhs)) w = max (VC_value c1 w) (VC_value rhs w)"
    by (simp only: step ih)
  have rhs: "VC_value (p # rhs) w = (if w = k then v else VC_value rhs w)"
    by (simp add: p VC_value_Cons)
  show ?case
  proof (cases "w = k")
    case True
    have "k \<notin> fst ` set rhs" using Cons.prems(1) p by simp
    then have "VC_value rhs k = 0" by (rule VC_value_absent)
    then show ?thesis
      using True v Cons.prems(3) unfolding lhs rhs by (simp add: c1 max_def)
  next
    case False
    then show ?thesis unfolding lhs rhs by (simp add: c1)
  qed
qed

subsection \<open>Invariants of the tool's tables\<close>

lemma VC_valid_Nil: "VC_valid []"
  by (simp add: VC_valid_def VC_ok_def)

lemma VC_valid_single: "0 < v \<Longrightarrow> VC_valid (assign k v [])"
  by (simp add: VC_valid_def VC_ok_def)

lemma ThreadVCMap_at_ok:
  assumes "threads_ok m"
  shows "VC_valid (ThreadVCMap_at m t)" and "VC_find (ThreadVCMap_at m t) t \<noteq> None"
proof -
  show "VC_valid (ThreadVCMap_at m t)"
    using assms VC_valid_single [of 1 t]
    by (auto simp: threads_ok_def ThreadVCMap_at_def split: option.splits)
  show "VC_find (ThreadVCMap_at m t) t \<noteq> None"
    using assms by (auto simp: threads_ok_def ThreadVCMap_at_def VC_find_def
        split: option.splits)
qed

lemma ThreadVCMap_subscript_eq: "ThreadVCMap_subscript m t = m(t \<mapsto> ThreadVCMap_at m t)"
  by (auto simp: ThreadVCMap_subscript_def ThreadVCMap_at_def fun_eq_iff split: option.splits)

lemma ThreadVCMap_at_subscript:
  "ThreadVCMap_at (ThreadVCMap_subscript m t) u = ThreadVCMap_at m u"
  by (auto simp: ThreadVCMap_subscript_def ThreadVCMap_at_def split: option.splits)

lemma threads_ok_upd:
  "threads_ok m \<Longrightarrow> VC_valid c \<Longrightarrow> VC_find c t \<noteq> None \<Longrightarrow> threads_ok (m(t \<mapsto> c))"
  by (simp add: threads_ok_def)

lemma threads_ok_subscript: "threads_ok m \<Longrightarrow> threads_ok (ThreadVCMap_subscript m t)"
  by (simp add: ThreadVCMap_subscript_eq threads_ok_upd ThreadVCMap_at_ok)

lemma addrs_ok_upd: "addrs_ok m \<Longrightarrow> VC_valid c \<Longrightarrow> addrs_ok (m(k \<mapsto> c))"
  by (simp add: addrs_ok_def)

lemma addr_at_ok: "addrs_ok m \<Longrightarrow> VC_valid (addr_at m k)"
  by (auto simp: addrs_ok_def addr_at_def VC_valid_Nil split: option.splits)

lemma addr_subscript_eq: "addr_subscript m k = m(k \<mapsto> addr_at m k)"
  by (auto simp: addr_subscript_def addr_at_def fun_eq_iff split: option.splits)

lemma addrs_ok_subscript: "addrs_ok m \<Longrightarrow> addrs_ok (addr_subscript m k)"
  by (simp add: addr_subscript_eq addrs_ok_upd addr_at_ok)

lemma VC_value_pos:
  assumes "VC_valid c" and "VC_find c w \<noteq> None"
  shows "0 < VC_value c w"
proof -
  obtain x where x: "map_of c w = Some x" using assms(2) by (auto simp: VC_find_def)
  then have "(w, x) \<in> set c" by (rule map_of_SomeD)
  then have "0 < x" using assms(1) by (auto simp: VC_valid_def)
  then show ?thesis using x by (simp add: VC_value_def VC_find_def)
qed

lemma own_clock_ok:
  assumes "threads_ok m"
  shows "own_clock m t = (ThreadVCMap_subscript m t, VC_value (ThreadVCMap_at m t) t)"
    and "0 < VC_value (ThreadVCMap_at m t) t"
  using ThreadVCMap_at_ok [OF assms, of t]
  by (simp_all add: own_clock_def VC_subscript_present ThreadVCMap_subscript_eq VC_value_pos
      Let_def)

lemma increment_own_ok:
  assumes "threads_ok m"
  shows "increment_own m t =
           (if VC_value (ThreadVCMap_at m t) t = INT_MAX then Inl SignedOverflow
            else Inr (m(t \<mapsto> assign t (VC_value (ThreadVCMap_at m t) t + 1) (ThreadVCMap_at m t))))"
  using ThreadVCMap_at_ok [OF assms, of t]
  by (simp add: increment_own_def VC_subscript_present pre_increment_def bind_result_def
      Let_def)

lemma threads_ok_increment:
  assumes "threads_ok m" and "increment_own m t = Inr m'"
  shows "threads_ok m'"
proof -
  have v: "0 < VC_value (ThreadVCMap_at m t) t"
    using ThreadVCMap_at_ok [OF assms(1), of t] by (simp add: VC_value_pos)
  have m': "m' = m(t \<mapsto> assign t (VC_value (ThreadVCMap_at m t) t + 1) (ThreadVCMap_at m t))"
    using assms(2) unfolding increment_own_ok [OF assms(1)] by (simp split: if_splits)
  show ?thesis
    unfolding m' using assms(1) v ThreadVCMap_at_ok(1) [OF assms(1), of t]
    by (intro threads_ok_upd VC_valid_assign) (simp_all add: VC_find_assign)
qed

lemma pin_inv_start: "pin_inv (pin_start watch_vars watch_locks)"
  by (auto simp: pin_inv_def pin_start_def threads_ok_def addrs_ok_def VC_valid_Nil
      dest!: map_of_SomeD)

lemma pin_inv_Read: "pin_inv g \<Longrightarrow> pin_inv (pin_Read tid mem_addr g)"
  by (simp add: pin_inv_def pin_Read_def own_clock_ok threads_ok_subscript addrs_ok_upd
      VC_valid_assign addr_at_ok)

lemma pin_inv_Write: "pin_inv g \<Longrightarrow> pin_inv (pin_Write tid mem_addr g)"
  by (simp add: pin_inv_def pin_Write_def own_clock_ok threads_ok_subscript addrs_ok_upd
      VC_valid_assign addr_at_ok)

lemma VC_valid_pos: "VC_valid c \<Longrightarrow> \<forall>p\<in>set c. 0 < snd p"
  by (simp add: VC_valid_def)

lemma threads_ok_join:
  assumes "threads_ok m" and "VC_valid rhs"
  shows "threads_ok (m(t \<mapsto> VC_join (ThreadVCMap_at m t) rhs))"
  using assms ThreadVCMap_at_ok [OF assms(1), of t]
  by (intro threads_ok_upd VC_valid_join VC_find_join_mono VC_valid_pos)

lemma pin_inv_Aquire: "pin_inv g \<Longrightarrow> pin_inv (Aquire tid lock_addr g)"
  by (simp add: pin_inv_def Aquire_def addrs_ok_subscript threads_ok_join addr_at_ok)

lemma pin_inv_Release:
  assumes "pin_inv g" and "pin_Release tid lock_addr g = Inr g'"
  shows "pin_inv g'"
proof -
  let ?tv = "ThreadVCMap_subscript (g_thread_vc g) tid"
  have ok: "threads_ok ?tv" using assms(1) by (simp add: pin_inv_def threads_ok_subscript)
  obtain tv' where i: "increment_own ?tv tid = Inr tv'"
    and g': "g' = g\<lparr>g_lock_vc := (g_lock_vc g)(lock_addr \<mapsto> ThreadVCMap_at ?tv tid),
                     g_thread_vc := tv'\<rparr>"
    using assms(2) by (auto simp: pin_Release_def bind_result_def Let_def split: sum.splits)
  show ?thesis
    using assms(1) threads_ok_increment [OF ok i] ThreadVCMap_at_ok(1) [OF ok, of tid]
    by (simp add: g' pin_inv_def addrs_ok_upd)
qed

lemma VC_le_pos:
  "\<forall>p\<in>set a. 0 < snd p \<Longrightarrow>
   VC_le a b = Inr (\<forall>p\<in>set a. snd p \<le> VC_value b (fst p) \<and> VC_find b (fst p) \<noteq> None)"
proof (induction a)
  case Nil
  then show ?case by simp
next
  case (Cons p a)
  obtain k v where p: "p = (k, v)" by (cases p)
  have v: "0 < v" using Cons.prems p by simp
  show ?case
    using Cons.IH Cons.prems v
    by (auto simp: p VC_value_def split: option.splits)
qed

lemma VC_le_returns: "VC_valid a \<Longrightarrow> \<exists>r. VC_le a b = Inr r"
  by (simp add: VC_le_pos VC_valid_pos)

lemma pin_inv_NoRaceForWrite:
  assumes "pin_inv g" and "NoRaceForWrite tid mem_addr g = Inr (b, g1)"
  shows "pin_inv g1"
  using assms
  by (auto simp: NoRaceForWrite_def bind_result_def Let_def pin_inv_def addrs_ok_subscript
      threads_ok_subscript split: sum.splits if_splits)

lemma pin_inv_NoRaceForRead:
  assumes "pin_inv g" and "NoRaceForRead tid mem_addr g = Inr (b, g1)"
  shows "pin_inv g1"
  using assms
  by (auto simp: NoRaceForRead_def bind_result_def Let_def pin_inv_def addrs_ok_subscript
      threads_ok_subscript split: sum.splits if_splits)

lemma NoRaceForWrite_returns: "pin_inv g \<Longrightarrow> \<exists>r. NoRaceForWrite tid mem_addr g = Inr r"
proof -
  assume inv: "pin_inv g"
  have r: "VC_valid (addr_at (g_read_vc g) mem_addr)" and w: "VC_valid (addr_at (g_write_vc g) mem_addr)"
    using inv by (simp_all add: pin_inv_def addr_at_ok)
  obtain b where b: "VC_le (addr_at (g_read_vc g) mem_addr) (ThreadVCMap_at (g_thread_vc g) tid) = Inr b"
    using VC_le_returns [OF r] by blast
  obtain b' where b': "VC_le (addr_at (g_write_vc g) mem_addr) (ThreadVCMap_at (g_thread_vc g) tid) = Inr b'"
    using VC_le_returns [OF w] by blast
  show ?thesis by (cases b) (auto simp: NoRaceForWrite_def bind_result_def Let_def b b')
qed

lemma NoRaceForRead_returns: "pin_inv g \<Longrightarrow> \<exists>r. NoRaceForRead tid mem_addr g = Inr r"
proof -
  assume inv: "pin_inv g"
  have w: "VC_valid (addr_at (g_write_vc g) mem_addr)"
    using inv by (simp_all add: pin_inv_def addr_at_ok)
  obtain b' where b': "VC_le (addr_at (g_write_vc g) mem_addr) (ThreadVCMap_at (g_thread_vc g) tid) = Inr b'"
    using VC_le_returns [OF w] by blast
  show ?thesis by (simp add: NoRaceForRead_def bind_result_def b')
qed

lemma pin_inv_out: "pin_inv (g\<lparr>out := x\<rparr>) = pin_inv g" "pin_inv (g\<lparr>cout := y\<rparr>) = pin_inv g"
  by (simp_all add: pin_inv_def)

lemma pin_inv_print:
  "pin_inv g \<Longrightarrow>
   pin_inv (g\<lparr>g_thread_vc := ThreadVCMap_subscript (g_thread_vc g) tid,
              g_read_vc := addr_subscript (g_read_vc g) mem_addr,
              g_write_vc := addr_subscript (g_write_vc g) mem_addr, out := x\<rparr>)"
  "pin_inv g \<Longrightarrow>
   pin_inv (g\<lparr>g_thread_vc := ThreadVCMap_subscript (g_thread_vc g) tid,
              g_write_vc := addr_subscript (g_write_vc g) mem_addr, out := x\<rparr>)"
  by (simp_all add: pin_inv_def addrs_ok_subscript threads_ok_subscript)

lemma pin_inv_CheckOverflow:
  assumes "pin_inv g" and "CheckOverflow tid ins_addr mem_addr is_write g = Inr g'"
  shows "pin_inv g'"
proof (cases "g_read_vc g mem_addr = None")
  case True
  then show ?thesis using assms by (simp add: CheckOverflow_def)
next
  case False
  show ?thesis
  proof (cases is_write)
    case True
    obtain b g1 where n: "NoRaceForWrite tid mem_addr (pin_Write tid mem_addr g) = Inr (b, g1)"
      using NoRaceForWrite_returns [OF pin_inv_Write [OF assms(1)], of tid mem_addr tid mem_addr]
      by auto
    have i1: "pin_inv g1" using pin_inv_NoRaceForWrite [OF pin_inv_Write [OF assms(1)] n] .
    show ?thesis
      using assms(2) False True i1 pin_inv_print(1) [OF i1]
      by (auto simp: CheckOverflow_def n bind_result_def Let_def pin_inv_out split: if_splits)
  next
    case f: False
    obtain b g1 where n: "NoRaceForRead tid mem_addr (pin_Read tid mem_addr g) = Inr (b, g1)"
      using NoRaceForRead_returns [OF pin_inv_Read [OF assms(1)], of tid mem_addr tid mem_addr]
      by auto
    have i1: "pin_inv g1" using pin_inv_NoRaceForRead [OF pin_inv_Read [OF assms(1)] n] .
    show ?thesis
      using assms(2) False f i1 pin_inv_print(2) [OF i1]
      by (auto simp: CheckOverflow_def n bind_result_def Let_def pin_inv_out split: if_splits)
  qed
qed

lemma pin_inv_Fork:
  assumes "pin_inv g" and "Fork tid thread_obj g = Inr g'"
  shows "pin_inv g'"
proof -
  let ?u = "last_id g + 1"
  let ?tv = "ThreadVCMap_subscript (ThreadVCMap_subscript (g_thread_vc g) tid) ?u"
  let ?tv1 = "?tv(?u \<mapsto> VC_join (ThreadVCMap_at ?tv ?u) (ThreadVCMap_at ?tv tid))"
  have ok: "threads_ok ?tv" using assms(1) by (simp add: pin_inv_def threads_ok_subscript)
  have ok1: "threads_ok ?tv1"
    using ok ThreadVCMap_at_ok(1) [OF ok, of tid] by (rule threads_ok_join)
  obtain tv2 where i: "increment_own ?tv1 tid = Inr tv2"
    and g': "g' = g\<lparr>last_id := ?u, thread_to_id := (thread_to_id g)(thread_obj \<mapsto> ?u),
                    g_thread_vc := tv2\<rparr>"
    using assms(2) by (auto simp: Fork_def bind_result_def Let_def split: sum.splits)
  show ?thesis
    using assms(1) threads_ok_increment [OF ok1 i] by (simp add: g' pin_inv_def)
qed

lemma pin_inv_Join:
  assumes "pin_inv g" and "Join tid thread_obj g = Inr g'"
  shows "pin_inv g'"
proof -
  define j where "j = (case thread_to_id g thread_obj of None \<Rightarrow> 0 | Some i \<Rightarrow> i)"
  let ?tv = "ThreadVCMap_subscript (ThreadVCMap_subscript (g_thread_vc g) j) tid"
  let ?tv1 = "?tv(tid \<mapsto> VC_join (ThreadVCMap_at ?tv tid) (ThreadVCMap_at ?tv j))"
  have ok: "threads_ok ?tv" using assms(1) by (simp add: pin_inv_def threads_ok_subscript)
  have ok1: "threads_ok ?tv1"
    using ok ThreadVCMap_at_ok(1) [OF ok, of j] by (rule threads_ok_join)
  obtain tv2 where i: "increment_own ?tv1 j = Inr tv2"
    and g': "g' = g\<lparr>thread_to_id := (thread_to_id g)(thread_obj \<mapsto> j), g_thread_vc := tv2\<rparr>"
    using assms(2) by (auto simp: Join_def bind_result_def Let_def j_def split: sum.splits)
  show ?thesis
    using assms(1) threads_ok_increment [OF ok1 i] by (simp add: g' pin_inv_def)
qed

lemma pin_inv_step: "pin_inv g \<Longrightarrow> pin_step e g = Inr g' \<Longrightarrow> pin_inv g'"
proof (cases e)
  case (memory_access tid ins mem w)
  assume "pin_inv g" "pin_step e g = Inr g'"
  then show ?thesis using memory_access by (auto intro: pin_inv_CheckOverflow)
next
  case (mutex_lock tid m)
  assume "pin_inv g" "pin_step e g = Inr g'"
  then show ?thesis using mutex_lock by (auto simp: MutexLockWrapper_def pin_inv_Aquire)
next
  case (mutex_unlock tid m)
  assume "pin_inv g" "pin_step e g = Inr g'"
  then show ?thesis using mutex_unlock
    by (auto simp: MutexUnlockWrapper_def split: if_splits intro: pin_inv_Release)
next
  case (thread_ctor tid t)
  assume a: "pin_inv g" "pin_step e g = Inr g'"
  then have "pin_inv (g\<lparr>cout := cout g @ [thread_ctor_by tid]\<rparr>)" by (simp add: pin_inv_out)
  then show ?thesis using a(2) thread_ctor
    by (auto simp: ThreadCtorWrapper_def intro: pin_inv_Fork)
next
  case (thread_join tid t)
  assume a: "pin_inv g" "pin_step e g = Inr g'"
  then have "pin_inv (g\<lparr>cout := cout g @ [thread_join_by tid]\<rparr>)" by (simp add: pin_inv_out)
  then show ?thesis using a(2) thread_join
    by (auto simp: ThreadJoinWrapper_def intro: pin_inv_Join)
qed

lemma pin_reachable_inv: "pin_reachable wv wl g \<Longrightarrow> pin_inv g"
  by (induction rule: pin_reachable.induct) (auto simp: pin_inv_start intro: pin_inv_step)

subsection \<open>The watch set\<close>

lemma pin_run_reachable:
  "pin_reachable wv wl g \<Longrightarrow> pin_run es g = Inr g' \<Longrightarrow> pin_reachable wv wl g'"
proof (induction es arbitrary: g)
  case Nil
  then show ?case by simp
next
  case (Cons e es)
  then show ?case
    by (auto simp: bind_result_def split: sum.splits intro: pin_reachable_step)
qed

lemma pin_reachable_state: "pin_reachable wv wl (pin_state wv wl es)"
  unfolding pin_state_def
  by (auto split: sum.splits intro: pin_reachable_start pin_run_reachable [OF pin_reachable_start])

lemma dom_addr_subscript: "dom (addr_subscript m k) = insert k (dom m)"
  by (simp add: addr_subscript_eq)

lemma read_vc_Write: "g_read_vc (pin_Write tid mem_addr g) = g_read_vc g"
  by (simp add: pin_Write_def split: prod.splits)

lemma read_vc_Read: "dom (g_read_vc (pin_Read tid mem_addr g)) = insert mem_addr (dom (g_read_vc g))"
  by (simp add: pin_Read_def split: prod.splits)

lemma read_vc_NoRaceForWrite:
  "NoRaceForWrite tid mem_addr g = Inr (b, g1) \<Longrightarrow>
   g_read_vc g1 = addr_subscript (g_read_vc g) mem_addr"
  by (auto simp: NoRaceForWrite_def bind_result_def Let_def split: sum.splits if_splits)

lemma read_vc_NoRaceForRead:
  "NoRaceForRead tid mem_addr g = Inr (b, g1) \<Longrightarrow> g_read_vc g1 = g_read_vc g"
  by (auto simp: NoRaceForRead_def bind_result_def split: sum.splits)

lemma dom_read_vc_CheckOverflow:
  assumes "CheckOverflow tid ins_addr mem_addr is_write g = Inr g'"
  shows "dom (g_read_vc g') = dom (g_read_vc g)"
proof (cases "g_read_vc g mem_addr = None")
  case True
  then show ?thesis using assms by (simp add: CheckOverflow_def)
next
  case False
  then have m: "insert mem_addr (dom (g_read_vc g)) = dom (g_read_vc g)" by auto
  show ?thesis
  proof (cases is_write)
    case True
    then obtain b g1 where n: "NoRaceForWrite tid mem_addr (pin_Write tid mem_addr g) = Inr (b, g1)"
      using assms False by (auto simp: CheckOverflow_def bind_result_def split: sum.splits)
    have d: "dom (g_read_vc g1) = dom (g_read_vc g)"
      by (simp add: read_vc_NoRaceForWrite [OF n] read_vc_Write dom_addr_subscript m)
    have "g_read_vc g' = g_read_vc g1 \<or> g_read_vc g' = addr_subscript (g_read_vc g1) mem_addr"
      using assms False True
      by (auto simp: CheckOverflow_def n bind_result_def Let_def split: if_splits)
    then show ?thesis
      by (rule disjE) (simp_all add: d dom_addr_subscript m)
  next
    case f: False
    then obtain b g1 where n: "NoRaceForRead tid mem_addr (pin_Read tid mem_addr g) = Inr (b, g1)"
      using assms False by (auto simp: CheckOverflow_def bind_result_def split: sum.splits)
    have d: "dom (g_read_vc g1) = dom (g_read_vc g)"
      by (simp add: read_vc_NoRaceForRead [OF n] read_vc_Read m)
    have "g_read_vc g' = g_read_vc g1"
      using assms False f
      by (auto simp: CheckOverflow_def n bind_result_def Let_def split: if_splits)
    then show ?thesis by (simp add: d)
  qed
qed

lemma read_vc_others:
  "g_read_vc (Aquire tid m g) = g_read_vc g"
  "pin_Release tid m g = Inr g' \<Longrightarrow> g_read_vc g' = g_read_vc g"
  "Fork tid t g = Inr g' \<Longrightarrow> g_read_vc g' = g_read_vc g"
  "Join tid t g = Inr g' \<Longrightarrow> g_read_vc g' = g_read_vc g"
  by (auto simp: Aquire_def pin_Release_def Fork_def Join_def bind_result_def Let_def
      split: sum.splits)

lemma dom_read_vc_step:
  assumes "pin_step e g = Inr g'"
  shows "dom (g_read_vc g') = dom (g_read_vc g)"
proof (cases e)
  case (memory_access tid ins mem w)
  then show ?thesis using assms by (simp add: dom_read_vc_CheckOverflow)
next
  case (mutex_lock tid m)
  then have "g_read_vc g' = g_read_vc g"
    using assms by (cases "g_lock_vc g m = None") (auto simp: MutexLockWrapper_def read_vc_others)
  then show ?thesis by simp
next
  case (mutex_unlock tid m)
  then have "g_read_vc g' = g_read_vc g"
    using assms by (cases "g_lock_vc g m = None") (auto simp: MutexUnlockWrapper_def read_vc_others)
  then show ?thesis by simp
next
  case (thread_ctor tid t)
  then show ?thesis using assms read_vc_others(3) [of tid t "g\<lparr>cout := cout g @ [thread_ctor_by tid]\<rparr>" g']
    by (simp add: ThreadCtorWrapper_def)
next
  case (thread_join tid t)
  then show ?thesis using assms read_vc_others(4) [of tid t "g\<lparr>cout := cout g @ [thread_join_by tid]\<rparr>" g']
    by (simp add: ThreadJoinWrapper_def)
qed

lemma dom_map_of_const: "dom (map_of (map (\<lambda>a. (a, v)) xs)) = set xs"
  by (simp add: dom_map_of_conv_image_fst image_image)

lemma pin_reachable_watch_set: "pin_reachable wv wl g \<Longrightarrow> dom (g_read_vc g) = set wv"
proof (induction rule: pin_reachable.induct)
  case pin_reachable_start
  show ?case by (simp add: pin_start_def dom_map_of_const)
next
  case (pin_reachable_step g e g')
  then show ?case by (simp add: dom_read_vc_step)
qed

lemmas pin_defs =
  pin_state_def pin_start_def CheckOverflow_def NoRaceForWrite_def NoRaceForRead_def
  pin_Read_def pin_Write_def Aquire_def pin_Release_def Fork_def Join_def
  MutexLockWrapper_def MutexUnlockWrapper_def ThreadCtorWrapper_def ThreadJoinWrapper_def
  own_clock_def increment_own_def ThreadVCMap_subscript_def ThreadVCMap_at_def
  addr_subscript_def addr_at_def VC_subscript_def VC_value_def VC_find_def VC_gt_def
  bind_result_def pre_increment_def INT_MAX_def

text \<open>
  Claim C9.  The watch set of the tool is the set of addresses \<open>main\<close> has stored in
  \<open>read_vc\<close>; no routine adds to it.  In every reachable state an access, read or
  write, to an address outside the watch set leaves the whole state as it is: no
  thread, read or write clock is made or changed and nothing is printed.
\<close>

theorem unwatched_access_is_ignored:
  assumes "pin_reachable watch_vars watch_locks g" and "mem_addr \<notin> set watch_vars"
  shows "CheckOverflow tid ins_addr mem_addr is_write g = Inr g"
proof -
  have "g_read_vc g mem_addr = None"
    using pin_reachable_watch_set [OF assms(1)] assms(2) by auto
  then show ?thesis by (simp add: CheckOverflow_def)
qed

theorem unwatched_access_is_ignored_witness:
  "pin_reachable [5] [7] (pin_state [5] [7] thread1_trace)
   \<and> (6::ADDRINT) \<notin> set [5]
   \<and> CheckOverflow 1 100 6 True (pin_state [5] [7] thread1_trace)
       = Inr (pin_state [5] [7] thread1_trace)
   \<and> CheckOverflow 1 100 6 False (pin_state [5] [7] thread1_trace)
       = Inr (pin_state [5] [7] thread1_trace)
   \<and> out (pin_state [5] [7] thread1_trace) = [Found True 1 5 100]
   \<and> g_write_vc (pin_state [5] [7] thread1_trace) 5 = Some [(1, 1)]
   \<and> g_write_vc (pin_state [5] [7] thread1_trace) 6 = None"
  (is "pin_reachable [5] [7] ?g \<and> ?n \<and> ?w \<and> ?r \<and> ?rest")
proof -
  have r: "pin_reachable [5] [7] ?g" by (rule pin_reachable_state)
  have n: "(6::ADDRINT) \<notin> set [5]" by simp
  have v: "?rest" by (simp add: thread1_trace_def pin_defs Let_def)
  show ?thesis
    using r n v unwatched_access_is_ignored [OF r n, of 1 100 True]
      unwatched_access_is_ignored [OF r n, of 1 100 False]
    by simp
qed

subsection \<open>Fork and Join\<close>

lemma ThreadVCMap_at_upd:
  "ThreadVCMap_at (m(t \<mapsto> c)) x = (if x = t then c else ThreadVCMap_at m x)"
  by (simp add: ThreadVCMap_at_def)

lemma VC_value_join_valid:
  assumes "VC_valid c" and "VC_valid rhs"
  shows "VC_value (VC_join c rhs) w = max (VC_value c w) (VC_value rhs w)"
proof -
  have "distinct (map fst rhs)" "\<forall>p\<in>set rhs. 0 < snd p"
    using assms(2) by (simp_all add: VC_valid_def VC_ok_def)
  moreover have "\<forall>w. 0 \<le> VC_value c w" using assms(1) by (simp add: VC_value_nonneg)
  ultimately show ?thesis by (rule VC_value_join)
qed

lemma Fork_effect:
  assumes "pin_inv g" and "Fork tid thread_obj g = Inr g'"
  defines "u \<equiv> last_id g + 1"
  defines "C \<equiv> ThreadVCMap_at (g_thread_vc g)" and "C' \<equiv> ThreadVCMap_at (g_thread_vc g')"
  shows "g' = g\<lparr>last_id := u, thread_to_id := (thread_to_id g)(thread_obj \<mapsto> u),
                  g_thread_vc := g_thread_vc g'\<rparr>"
    and "\<forall>t. t \<noteq> tid \<and> t \<noteq> u \<longrightarrow> g_thread_vc g' t = g_thread_vc g t"
    and "g_thread_vc g' tid \<noteq> None \<and> g_thread_vc g' u \<noteq> None"
    and "u \<noteq> tid \<longrightarrow> (\<forall>w. VC_value (C' u) w = max (VC_value (C u) w) (VC_value (C tid) w))"
    and "\<forall>w. VC_value (C' tid) w = (if w = tid then VC_value (C tid) tid + 1 else VC_value (C tid) w)"
    and "VC_value (C tid) tid \<noteq> INT_MAX"
proof -
  let ?m = "g_thread_vc g"
  let ?tv = "ThreadVCMap_subscript (ThreadVCMap_subscript ?m tid) u"
  let ?tv1 = "?tv(u \<mapsto> VC_join (C u) (C tid))"
  have at: "ThreadVCMap_at ?tv x = C x" for x
    by (simp add: ThreadVCMap_at_subscript C_def)
  have ok0: "threads_ok ?m" using assms(1) by (simp add: pin_inv_def)
  have ok: "threads_ok ?tv" using ok0 by (simp add: threads_ok_subscript)
  have ok1: "threads_ok ?tv1"
    using threads_ok_join [OF ok, of "C tid" u] ThreadVCMap_at_ok(1) [OF ok0, of tid]
    by (simp add: at C_def)
  have valid: "VC_valid (C x)" for x using ThreadVCMap_at_ok(1) [OF ok0] by (simp add: C_def)
  have jn: "VC_value (VC_join (C x) (C y)) w = max (VC_value (C x) w) (VC_value (C y) w)" for x y w
    by (rule VC_value_join_valid [OF valid valid])
  have at1: "ThreadVCMap_at ?tv1 tid = (if tid = u then VC_join (C u) (C tid) else C tid)"
    by (simp add: ThreadVCMap_at_upd at)
  have v1: "VC_value (ThreadVCMap_at ?tv1 tid) w = VC_value (C tid) w" for w
    by (simp add: at1 jn)
  have f: "Fork tid thread_obj g =
        bind_result (increment_own ?tv1 tid) (\<lambda>tv2.
           Inr (g\<lparr>last_id := u, thread_to_id := (thread_to_id g)(thread_obj \<mapsto> u),
                   g_thread_vc := tv2\<rparr>))"
    by (simp add: Fork_def Let_def u_def C_def ThreadVCMap_at_subscript)
  have inc: "increment_own ?tv1 tid =
      (if VC_value (C tid) tid = INT_MAX then Inl SignedOverflow
       else Inr (?tv1(tid \<mapsto> assign tid (VC_value (C tid) tid + 1) (ThreadVCMap_at ?tv1 tid))))"
    by (simp add: increment_own_ok [OF ok1] v1)
  show nov: "VC_value (C tid) tid \<noteq> INT_MAX"
    using assms(2) unfolding f inc by (auto simp: bind_result_def split: if_splits)
  have tv': "g_thread_vc g' = ?tv1(tid \<mapsto> assign tid (VC_value (C tid) tid + 1) (ThreadVCMap_at ?tv1 tid))"
    and g': "g' = g\<lparr>last_id := u, thread_to_id := (thread_to_id g)(thread_obj \<mapsto> u),
                  g_thread_vc := g_thread_vc g'\<rparr>"
    using assms(2) nov unfolding f inc by (auto simp: bind_result_def)
  show "g' = g\<lparr>last_id := u, thread_to_id := (thread_to_id g)(thread_obj \<mapsto> u),
                  g_thread_vc := g_thread_vc g'\<rparr>" by (rule g')
  show "\<forall>t. t \<noteq> tid \<and> t \<noteq> u \<longrightarrow> g_thread_vc g' t = g_thread_vc g t"
    by (simp add: tv' ThreadVCMap_subscript_eq)
  show "g_thread_vc g' tid \<noteq> None \<and> g_thread_vc g' u \<noteq> None"
    by (simp add: tv')
  show "u \<noteq> tid \<longrightarrow> (\<forall>w. VC_value (C' u) w = max (VC_value (C u) w) (VC_value (C tid) w))"
    by (simp add: C'_def tv' ThreadVCMap_at_upd jn)
  have "C' tid = assign tid (VC_value (C tid) tid + 1) (ThreadVCMap_at ?tv1 tid)"
    by (simp add: C'_def tv' ThreadVCMap_at_def)
  then show "\<forall>w. VC_value (C' tid) w = (if w = tid then VC_value (C tid) tid + 1 else VC_value (C tid) w)"
    by (simp add: VC_value_assign v1)
qed

lemma Fork_returns:
  assumes "pin_inv g" and "VC_value (ThreadVCMap_at (g_thread_vc g) tid) tid \<noteq> INT_MAX"
  shows "\<exists>g'. Fork tid thread_obj g = Inr g'"
proof -
  define u where "u = last_id g + 1"
  define C where "C = ThreadVCMap_at (g_thread_vc g)"
  let ?m = "g_thread_vc g"
  let ?tv = "ThreadVCMap_subscript (ThreadVCMap_subscript ?m tid) u"
  let ?tv1 = "?tv(u \<mapsto> VC_join (C u) (C tid))"
  have at: "ThreadVCMap_at ?tv x = C x" for x
    by (simp add: ThreadVCMap_at_subscript C_def)
  have ok0: "threads_ok ?m" using assms(1) by (simp add: pin_inv_def)
  have ok: "threads_ok ?tv" using ok0 by (simp add: threads_ok_subscript)
  have ok1: "threads_ok ?tv1"
    using threads_ok_join [OF ok, of "C tid" u] ThreadVCMap_at_ok(1) [OF ok0, of tid]
    by (simp add: at C_def)
  have valid: "VC_valid (C x)" for x using ThreadVCMap_at_ok(1) [OF ok0] by (simp add: C_def)
  have jn: "VC_value (VC_join (C x) (C y)) w = max (VC_value (C x) w) (VC_value (C y) w)" for x y w
    by (rule VC_value_join_valid [OF valid valid])
  have v1: "VC_value (ThreadVCMap_at ?tv1 tid) w = VC_value (C tid) w" for w
    by (simp add: ThreadVCMap_at_upd at jn)
  show ?thesis
  proof -
    have "Fork tid thread_obj g =
        bind_result (increment_own ?tv1 tid) (\<lambda>tv2.
           Inr (g\<lparr>last_id := u, thread_to_id := (thread_to_id g)(thread_obj \<mapsto> u),
                   g_thread_vc := tv2\<rparr>))"
      by (simp add: Fork_def Let_def u_def C_def ThreadVCMap_at_subscript)
    then show ?thesis
      using assms(2)
      by (simp add: increment_own_ok [OF ok1] v1 bind_result_def C_def [symmetric])
  qed
qed

lemma Join_effect:
  fixes g :: Globals and tid :: THREADID and thread_obj :: ADDRINT
  assumes "pin_inv g"
  defines "j \<equiv> (case thread_to_id g thread_obj of None \<Rightarrow> 0 | Some i \<Rightarrow> i)"
  defines "C \<equiv> ThreadVCMap_at (g_thread_vc g)"
  shows "Join tid thread_obj g =
           (if VC_value (C j) j = INT_MAX then Inl SignedOverflow
            else Inr (g\<lparr>thread_to_id := (thread_to_id g)(thread_obj \<mapsto> j),
                        g_thread_vc :=
                          (ThreadVCMap_subscript (ThreadVCMap_subscript (g_thread_vc g) j) tid)
                          (tid \<mapsto> VC_join (C tid) (C j),
                           j \<mapsto> assign j (VC_value (C j) j + 1)
                                  (if j = tid then VC_join (C tid) (C j) else C j))\<rparr>))"
proof -
  let ?m = "g_thread_vc g"
  let ?tv = "ThreadVCMap_subscript (ThreadVCMap_subscript ?m j) tid"
  let ?tv1 = "?tv(tid \<mapsto> VC_join (C tid) (C j))"
  have at: "ThreadVCMap_at ?tv x = C x" for x
    by (simp add: ThreadVCMap_at_subscript C_def)
  have ok0: "threads_ok ?m" using assms(1) by (simp add: pin_inv_def)
  have ok: "threads_ok ?tv" using ok0 by (simp add: threads_ok_subscript)
  have ok1: "threads_ok ?tv1"
    using threads_ok_join [OF ok, of "C j" tid] ThreadVCMap_at_ok(1) [OF ok0, of j]
    by (simp add: at C_def)
  have valid: "VC_valid (C x)" for x using ThreadVCMap_at_ok(1) [OF ok0] by (simp add: C_def)
  have jn: "VC_value (VC_join (C x) (C y)) w = max (VC_value (C x) w) (VC_value (C y) w)" for x y w
    by (rule VC_value_join_valid [OF valid valid])
  have at1: "ThreadVCMap_at ?tv1 j = (if j = tid then VC_join (C tid) (C j) else C j)"
    by (simp add: ThreadVCMap_at_upd at)
  have v1: "VC_value (ThreadVCMap_at ?tv1 j) w = VC_value (C j) w" for w
    by (simp add: at1 jn)
  have f: "Join tid thread_obj g =
        bind_result (increment_own ?tv1 j) (\<lambda>tv2.
           Inr (g\<lparr>thread_to_id := (thread_to_id g)(thread_obj \<mapsto> j), g_thread_vc := tv2\<rparr>))"
    by (simp add: Join_def Let_def j_def C_def ThreadVCMap_at_subscript)
  have inc: "increment_own ?tv1 j =
      (if VC_value (C j) j = INT_MAX then Inl SignedOverflow
       else Inr (?tv1(j \<mapsto> assign j (VC_value (C j) j + 1) (ThreadVCMap_at ?tv1 j))))"
    by (simp add: increment_own_ok [OF ok1] v1)
  show ?thesis unfolding f inc at1 by (simp add: bind_result_def)
qed

lemma Join_values:
  fixes g g' :: Globals and tid :: THREADID and thread_obj :: ADDRINT
  assumes "pin_inv g" and "Join tid thread_obj g = Inr g'"
  defines "j \<equiv> (case thread_to_id g thread_obj of None \<Rightarrow> 0 | Some i \<Rightarrow> i)"
  defines "C \<equiv> ThreadVCMap_at (g_thread_vc g)" and "C' \<equiv> ThreadVCMap_at (g_thread_vc g')"
  shows "\<forall>w. VC_value (C' j) w = (if w = j then VC_value (C j) j + 1 else VC_value (C j) w)"
    and "tid \<noteq> j \<longrightarrow> (\<forall>w. VC_value (C' tid) w = max (VC_value (C tid) w) (VC_value (C j) w))"
    and "\<forall>t. t \<noteq> tid \<and> t \<noteq> j \<longrightarrow> g_thread_vc g' t = g_thread_vc g t"
proof -
  have ok0: "threads_ok (g_thread_vc g)" using assms(1) by (simp add: pin_inv_def)
  have valid: "VC_valid (C x)" for x using ThreadVCMap_at_ok(1) [OF ok0] by (simp add: C_def)
  have jn: "VC_value (VC_join (C x) (C y)) w = max (VC_value (C x) w) (VC_value (C y) w)" for x y w
    by (rule VC_value_join_valid [OF valid valid])
  have g': "g_thread_vc g' =
      (ThreadVCMap_subscript (ThreadVCMap_subscript (g_thread_vc g) j) tid)
        (tid \<mapsto> VC_join (C tid) (C j),
         j \<mapsto> assign j (VC_value (C j) j + 1) (if j = tid then VC_join (C tid) (C j) else C j))"
    using assms(2) unfolding Join_effect [OF assms(1)] j_def [symmetric] C_def [symmetric]
    by (auto split: if_splits)
  show "\<forall>w. VC_value (C' j) w = (if w = j then VC_value (C j) j + 1 else VC_value (C j) w)"
    by (simp add: C'_def g' ThreadVCMap_at_def VC_value_assign jn)
  show "tid \<noteq> j \<longrightarrow> (\<forall>w. VC_value (C' tid) w = max (VC_value (C tid) w) (VC_value (C j) w))"
    by (simp add: C'_def g' ThreadVCMap_at_def jn)
  show "\<forall>t. t \<noteq> tid \<and> t \<noteq> j \<longrightarrow> g_thread_vc g' t = g_thread_vc g t"
    by (simp add: g' ThreadVCMap_subscript_eq)
qed

text \<open>
  Claim C7 says that \<open>Fork(t, child)\<close> takes a thread id \<open>u\<close> never used before, makes
  \<open>C[u]\<close> a copy of \<open>C[t]\<close> with \<open>C[u][u] = 1\<close>, and increments \<open>C[t][t]\<close>.  The id is
  the next value of the counter \<open>last_id\<close>, whatever ids the events have used.  After
  thread 1 has written the watched variable and unlocked the watched mutex, with no
  fork so far, \<open>Fork(0, 9)\<close> takes \<open>u = 1\<close>: thread 1 has the clock \<open><T1:2>\<close> already,
  and afterwards \<open>C[1] = <T0:1,T1:2>\<close>, so \<open>C[u][u]\<close> is 2 and not 1.
\<close>

theorem fork_joins_into_next_id_counterexample:
  "g_thread_vc (pin_state [5] [7] [memory_access 1 100 5 True, mutex_unlock 1 7]) 1 = Some [(1, 2)]
   \<and> last_id (pin_state [5] [7] [memory_access 1 100 5 True, mutex_unlock 1 7]) = 0
   \<and> \<not> isl (Fork 0 9 (pin_state [5] [7] [memory_access 1 100 5 True, mutex_unlock 1 7]))
   \<and> last_id (projr (Fork 0 9 (pin_state [5] [7] [memory_access 1 100 5 True, mutex_unlock 1 7]))) = 1
   \<and> thread_to_id (projr (Fork 0 9 (pin_state [5] [7] [memory_access 1 100 5 True, mutex_unlock 1 7]))) 9
       = Some 1
   \<and> g_thread_vc (projr (Fork 0 9 (pin_state [5] [7] [memory_access 1 100 5 True, mutex_unlock 1 7]))) 1
       = Some [(0, 1), (1, 2)]
   \<and> g_thread_vc (projr (Fork 0 9 (pin_state [5] [7] [memory_access 1 100 5 True, mutex_unlock 1 7]))) 0
       = Some [(0, 2)]"
  by (simp add: pin_defs Let_def)

text \<open>
  Claim C7 as amended.  In a reachable state \<open>Fork(t, child)\<close> returns unless
  \<open>C[t][t]\<close> is \<open>INT_MAX\<close>.  It takes \<open>u = last_id + 1\<close> (a 32-bit unsigned sum),
  stores it in \<open>last_id\<close> and binds the handle to it; it replaces \<open>C[u]\<close> by the
  pointwise maximum of \<open>C[u]\<close> and \<open>C[t]\<close>, and then increments \<open>C[t][t]\<close>; the clock
  of no other thread, no read, write or lock clock and no output changes.  A thread
  clock that is not stored yet is read as the one \<open>ThreadVCMap\<close> makes on first use,
  with the own component 1.  When \<open>u\<close> is fresh (it is not \<open>t\<close>, no clock is stored for
  it, and \<open>C[t]\<close> has no entry for it) the new \<open>C[u]\<close> is \<open>C[t]\<close> with the component
  \<open>u\<close> set to 1.
\<close>

theorem fork_joins_into_next_id:
  fixes g :: Globals and tid :: THREADID and thread_obj :: ADDRINT
  defines "u \<equiv> last_id g + 1"
  defines "C \<equiv> ThreadVCMap_at (g_thread_vc g)"
  assumes "pin_reachable watch_vars watch_locks g" and "VC_value (C tid) tid \<noteq> INT_MAX"
  shows "\<exists>g'. Fork tid thread_obj g = Inr g'
           \<and> last_id g' = u \<and> thread_to_id g' = (thread_to_id g)(thread_obj \<mapsto> u)
           \<and> g_read_vc g' = g_read_vc g \<and> g_write_vc g' = g_write_vc g
           \<and> g_lock_vc g' = g_lock_vc g \<and> out g' = out g \<and> cout g' = cout g
           \<and> (\<forall>t. t \<noteq> tid \<and> t \<noteq> u \<longrightarrow> g_thread_vc g' t = g_thread_vc g t)
           \<and> (\<forall>w. VC_value (ThreadVCMap_at (g_thread_vc g') tid) w
                    = (if w = tid then VC_value (C tid) tid + 1 else VC_value (C tid) w))
           \<and> (u \<noteq> tid \<longrightarrow>
                (\<forall>w. VC_value (ThreadVCMap_at (g_thread_vc g') u) w
                       = max (VC_value (C u) w) (VC_value (C tid) w)))
           \<and> (fresh_id g tid u \<longrightarrow>
                (\<forall>w. VC_value (ThreadVCMap_at (g_thread_vc g') u) w
                       = (if w = u then 1 else VC_value (C tid) w)))"
proof -
  have inv: "pin_inv g" using assms(3) by (rule pin_reachable_inv)
  obtain g' where f: "Fork tid thread_obj g = Inr g'"
    using Fork_returns [OF inv] assms(4) unfolding C_def by blast
  note e = Fork_effect [OF inv f, folded u_def C_def]
  have ok0: "threads_ok (g_thread_vc g)" using inv by (simp add: pin_inv_def)
  have nn: "0 \<le> VC_value (C tid) w" for w
    using ThreadVCMap_at_ok(1) [OF ok0, of tid] by (simp add: C_def VC_value_nonneg)
  have fresh: "VC_value (ThreadVCMap_at (g_thread_vc g') u) w
                = (if w = u then 1 else VC_value (C tid) w)"
    if fr: "fresh_id g tid u" for w
  proof -
    have "u \<noteq> tid" using fr by (simp add: fresh_id_def)
    then have m: "VC_value (ThreadVCMap_at (g_thread_vc g') u) w
        = max (VC_value (C u) w) (VC_value (C tid) w)" using e(4) by simp
    have cu: "VC_value (C u) w = (if w = u then 1 else 0)"
      using fr by (simp add: fresh_id_def C_def ThreadVCMap_at_def VC_value_def VC_find_def)
    have ctu: "VC_value (C tid) u = 0"
      using fr by (simp add: fresh_id_def C_def VC_value_def)
    show ?thesis using nn [of w] by (simp add: m cu ctu max_def)
  qed
  have fields: "last_id g' = u \<and> thread_to_id g' = (thread_to_id g)(thread_obj \<mapsto> u)
      \<and> g_read_vc g' = g_read_vc g \<and> g_write_vc g' = g_write_vc g
      \<and> g_lock_vc g' = g_lock_vc g \<and> out g' = out g \<and> cout g' = cout g"
    by (subst e(1), simp)+
  show ?thesis
    using f fields e(2) e(4) e(5) fresh by blast
qed

theorem fork_joins_into_next_id_witness:
  "pin_reachable [5] [7] (pin_state [5] [7] thread0_trace)
   \<and> VC_value (ThreadVCMap_at (g_thread_vc (pin_state [5] [7] thread0_trace)) 0) 0 \<noteq> INT_MAX
   \<and> fresh_id (pin_state [5] [7] thread0_trace) 0 (last_id (pin_state [5] [7] thread0_trace) + 1)
   \<and> (\<exists>g'. Fork 0 9 (pin_state [5] [7] thread0_trace) = Inr g'
          \<and> last_id g' = 1 \<and> thread_to_id g' 9 = Some 1
          \<and> VC_value (ThreadVCMap_at (g_thread_vc g') 1) 1 = 1
          \<and> VC_value (ThreadVCMap_at (g_thread_vc g') 1) 0 = 2
          \<and> VC_value (ThreadVCMap_at (g_thread_vc g') 0) 0 = 3)"
  (is "pin_reachable [5] [7] ?g \<and> ?h \<and> ?f \<and> ?c")
proof -
  have r: "pin_reachable [5] [7] ?g" by (rule pin_reachable_state)
  have vals: "last_id ?g = 0" "g_thread_vc ?g 0 = Some [(0, 2)]" "g_thread_vc ?g 1 = None"
    "thread_to_id ?g = Map.empty"
    by (simp_all add: thread0_trace_def pin_defs Let_def)
  have c0: "ThreadVCMap_at (g_thread_vc ?g) 0 = [(0, 2)]"
    by (simp add: ThreadVCMap_at_def vals)
  have v0: "VC_value [(0, 2)] w = (if w = 0 then 2 else 0)" for w :: THREADID
    by (simp add: VC_value_def VC_find_def)
  have h: "?h" by (simp add: c0 v0 INT_MAX_def)
  have f: "?f" by (simp add: fresh_id_def vals c0 VC_find_def)
  have "?c"
    using fork_joins_into_next_id [OF r h, of 9] f
    by (auto simp: vals c0 v0)
  then show ?thesis using r h f by simp
qed

text \<open>
  Claim C8 says that a join whose handle no fork has bound is dropped, with no change
  of state and a diagnostic.  \<open>Join\<close> reads \<open>thread_to_id[thread_obj]\<close>, and the
  subscript inserts the id 0 under a missing handle.  In the state above, where the
  handle 9 is not bound, the join of thread 1 binds it to 0, makes thread 0 a clock
  and increments it, merges that clock into \<open>C[1]\<close>, and prints only the line
  \<open>thread::join by thread 1\<close> that the wrapper prints for every join.
\<close>

theorem join_of_unbound_handle_counterexample:
  "thread_to_id (pin_state [5] [7] [memory_access 1 100 5 True, mutex_unlock 1 7]) 9 = None
   \<and> g_thread_vc (pin_state [5] [7] [memory_access 1 100 5 True, mutex_unlock 1 7]) 0 = None
   \<and> g_thread_vc (pin_state [5] [7] [memory_access 1 100 5 True, mutex_unlock 1 7]) 1 = Some [(1, 2)]
   \<and> out (pin_state [5] [7] [memory_access 1 100 5 True, mutex_unlock 1 7]) = [Found True 1 5 100]
   \<and> cout (pin_state [5] [7] [memory_access 1 100 5 True, mutex_unlock 1 7]) = []
   \<and> \<not> isl (ThreadJoinWrapper 1 9 (pin_state [5] [7] [memory_access 1 100 5 True, mutex_unlock 1 7]))
   \<and> thread_to_id (projr (ThreadJoinWrapper 1 9
         (pin_state [5] [7] [memory_access 1 100 5 True, mutex_unlock 1 7]))) 9 = Some 0
   \<and> g_thread_vc (projr (ThreadJoinWrapper 1 9
         (pin_state [5] [7] [memory_access 1 100 5 True, mutex_unlock 1 7]))) 0 = Some [(0, 2)]
   \<and> g_thread_vc (projr (ThreadJoinWrapper 1 9
         (pin_state [5] [7] [memory_access 1 100 5 True, mutex_unlock 1 7]))) 1 = Some [(0, 1), (1, 2)]
   \<and> out (projr (ThreadJoinWrapper 1 9
         (pin_state [5] [7] [memory_access 1 100 5 True, mutex_unlock 1 7]))) = [Found True 1 5 100]
   \<and> cout (projr (ThreadJoinWrapper 1 9
         (pin_state [5] [7] [memory_access 1 100 5 True, mutex_unlock 1 7]))) = [thread_join_by 1]"
  by (simp add: pin_defs Let_def)

text \<open>
  Claim C8 as amended.  In a reachable state a join whose handle is not bound is
  carried out as the join of a handle bound to thread 0, and prints no diagnostic.
  Unless \<open>C[0][0]\<close> is \<open>INT_MAX\<close> it returns: the handle is bound to 0, \<open>C[t]\<close> becomes
  the pointwise maximum of \<open>C[t]\<close> and \<open>C[0]\<close>, \<open>C[0][0]\<close> is incremented, no other
  thread's clock changes, \<open>Join\<close> prints nothing, and \<open>ThreadJoinWrapper\<close> prints its
  one trace line on \<open>cout\<close>.
\<close>

theorem join_of_unbound_handle:
  fixes g :: Globals and tid :: THREADID and thread_obj :: ADDRINT
  defines "C \<equiv> ThreadVCMap_at (g_thread_vc g)"
  assumes "pin_reachable watch_vars watch_locks g" and "thread_to_id g thread_obj = None"
    and "VC_value (C 0) 0 \<noteq> INT_MAX"
  shows "Join tid thread_obj g
           = Join tid thread_obj (g\<lparr>thread_to_id := (thread_to_id g)(thread_obj \<mapsto> 0)\<rparr>)
       \<and> (\<exists>g'. Join tid thread_obj g = Inr g'
              \<and> thread_to_id g' = (thread_to_id g)(thread_obj \<mapsto> 0)
              \<and> out g' = out g \<and> cout g' = cout g
              \<and> (\<forall>w. VC_value (ThreadVCMap_at (g_thread_vc g') 0) w
                       = (if w = 0 then VC_value (C 0) 0 + 1 else VC_value (C 0) w))
              \<and> (tid \<noteq> 0 \<longrightarrow>
                   (\<forall>w. VC_value (ThreadVCMap_at (g_thread_vc g') tid) w
                          = max (VC_value (C tid) w) (VC_value (C 0) w)))
              \<and> (\<forall>t. t \<noteq> tid \<and> t \<noteq> 0 \<longrightarrow> g_thread_vc g' t = g_thread_vc g t))
       \<and> (\<exists>g'. ThreadJoinWrapper tid thread_obj g = Inr g'
              \<and> out g' = out g \<and> cout g' = cout g @ [thread_join_by tid])"
proof (intro conjI)
  have inv: "pin_inv g" using assms(2) by (rule pin_reachable_inv)
  show "Join tid thread_obj g
           = Join tid thread_obj (g\<lparr>thread_to_id := (thread_to_id g)(thread_obj \<mapsto> 0)\<rparr>)"
    using assms(3) by (simp add: Join_def)
  have j: "(case thread_to_id g thread_obj of None \<Rightarrow> 0 | Some i \<Rightarrow> i) = 0"
    using assms(3) by simp
  note e = Join_effect [OF inv, where thread_obj = thread_obj and tid = tid, unfolded j, folded C_def]
  obtain g' where g': "Join tid thread_obj g = Inr g'"
    using assms(4) by (simp add: e)
  note v = Join_values [OF inv g', unfolded j, folded C_def]
  have "thread_to_id g' = (thread_to_id g)(thread_obj \<mapsto> 0) \<and> out g' = out g \<and> cout g' = cout g"
    using g' assms(4) by (auto simp: e)
  then show "\<exists>g'. Join tid thread_obj g = Inr g'
              \<and> thread_to_id g' = (thread_to_id g)(thread_obj \<mapsto> 0)
              \<and> out g' = out g \<and> cout g' = cout g
              \<and> (\<forall>w. VC_value (ThreadVCMap_at (g_thread_vc g') 0) w
                       = (if w = 0 then VC_value (C 0) 0 + 1 else VC_value (C 0) w))
              \<and> (tid \<noteq> 0 \<longrightarrow>
                   (\<forall>w. VC_value (ThreadVCMap_at (g_thread_vc g') tid) w
                          = max (VC_value (C tid) w) (VC_value (C 0) w)))
              \<and> (\<forall>t. t \<noteq> tid \<and> t \<noteq> 0 \<longrightarrow> g_thread_vc g' t = g_thread_vc g t)"
    using g' v by blast
  let ?g = "g\<lparr>cout := cout g @ [thread_join_by tid]\<rparr>"
  have inv2: "pin_inv ?g" using inv by (simp add: pin_inv_out)
  have j2: "(case thread_to_id ?g thread_obj of None \<Rightarrow> 0 | Some i \<Rightarrow> i) = 0"
    using assms(3) by simp
  have "g_thread_vc ?g = g_thread_vc g" by simp
  note e2 = Join_effect [OF inv2, where thread_obj = thread_obj and tid = tid, unfolded j2 this, folded C_def]
  show "\<exists>g'. ThreadJoinWrapper tid thread_obj g = Inr g'
              \<and> out g' = out g \<and> cout g' = cout g @ [thread_join_by tid]"
    using assms(4) by (simp add: ThreadJoinWrapper_def e2)
qed

theorem join_of_unbound_handle_witness:
  "pin_reachable [5] [7] (pin_state [5] [7] thread1_trace)
   \<and> thread_to_id (pin_state [5] [7] thread1_trace) 9 = None
   \<and> VC_value (ThreadVCMap_at (g_thread_vc (pin_state [5] [7] thread1_trace)) 0) 0 \<noteq> INT_MAX
   \<and> (\<exists>g'. Join 1 9 (pin_state [5] [7] thread1_trace) = Inr g'
          \<and> thread_to_id g' 9 = Some 0
          \<and> out g' = out (pin_state [5] [7] thread1_trace)
          \<and> cout g' = cout (pin_state [5] [7] thread1_trace)
          \<and> VC_value (ThreadVCMap_at (g_thread_vc g') 0) 0 = 2
          \<and> VC_value (ThreadVCMap_at (g_thread_vc g') 1) 0 = 1
          \<and> VC_value (ThreadVCMap_at (g_thread_vc g') 1) 1 = 2)"
  (is "pin_reachable [5] [7] ?g \<and> ?n \<and> ?h \<and> ?c")
proof -
  have r: "pin_reachable [5] [7] ?g" by (rule pin_reachable_state)
  have vals: "g_thread_vc ?g 0 = None" "g_thread_vc ?g 1 = Some [(1, 2)]"
    "thread_to_id ?g 9 = None"
    by (simp_all add: thread1_trace_def pin_defs Let_def)
  have c: "ThreadVCMap_at (g_thread_vc ?g) 0 = [(0, 1)]"
    "ThreadVCMap_at (g_thread_vc ?g) 1 = [(1, 2)]"
    by (simp_all add: ThreadVCMap_at_def vals)
  have v: "VC_value [(0, 1)] w = (if w = 0 then 1 else 0)"
    "VC_value [(1, 2)] w = (if w = 1 then 2 else 0)" for w :: THREADID
    by (simp_all add: VC_value_def VC_find_def)
  have n: "?n" by (rule vals(3))
  have h: "?h" by (simp add: c v INT_MAX_def)
  obtain g' where a: "Join 1 9 ?g = Inr g'"
    "thread_to_id g' = (thread_to_id ?g)(9 \<mapsto> 0)" "out g' = out ?g" "cout g' = cout ?g"
    "\<forall>w. VC_value (ThreadVCMap_at (g_thread_vc g') 0) w
        = (if w = 0 then VC_value (ThreadVCMap_at (g_thread_vc ?g) 0) 0 + 1
           else VC_value (ThreadVCMap_at (g_thread_vc ?g) 0) w)"
    "(1::THREADID) \<noteq> 0 \<longrightarrow> (\<forall>w. VC_value (ThreadVCMap_at (g_thread_vc g') 1) w
        = max (VC_value (ThreadVCMap_at (g_thread_vc ?g) 1) w)
              (VC_value (ThreadVCMap_at (g_thread_vc ?g) 0) w))"
    using join_of_unbound_handle [OF r n h, of 1, THEN conjunct2, THEN conjunct1] by blast
  have "VC_value (ThreadVCMap_at (g_thread_vc g') 0) 0 = 2" using a(5) by (simp add: c v)
  moreover have "VC_value (ThreadVCMap_at (g_thread_vc g') 1) 0 = 1"
    "VC_value (ThreadVCMap_at (g_thread_vc g') 1) 1 = 2" using a(6) by (simp_all add: c v)
  ultimately have "?c" using a(1-4) by simp
  then show ?thesis using r n h by simp
qed

subsection \<open>The comparison of sparse clocks\<close>

text \<open>
  Claim C6 says that \<open>a <= b\<close> is total and true exactly when \<open>a[t] \<le> b[t]\<close> for every
  thread, a missing entry counting as 0.  The code follows this for an entry of \<open>a\<close>
  whose thread is missing in \<open>b\<close> only when the entry is positive.  For
  \<open>a = VC(0, 0)\<close>, one entry with time 0, and the empty \<open>b = VC()\<close>, every component
  of \<open>a\<close> is at most that of \<open>b\<close>, and the loop dereferences the end iterator.
\<close>

theorem VC_le_end_iterator:
  "VC_le (VC_single 0 0) VC_empty = Inl EndIteratorDeref
   \<and> (\<forall>t. VC_value (VC_single 0 0) t \<le> VC_value VC_empty t)"
  by (simp add: VC_single_def VC_empty_def VC_find_def VC_value_def)

text \<open>
  On the clocks the tool builds, whose entries are all positive, the comparison returns
  and is the one the data model describes.
\<close>

lemma VC_value_entry:
  assumes "distinct (map fst a)" and "p \<in> set a"
  shows "VC_value a (fst p) = snd p"
proof -
  have "map_of a (fst p) = Some (snd p)" using assms by (simp add: map_of_eq_Some_iff)
  then show ?thesis by (simp add: VC_value_def VC_find_def)
qed

theorem VC_le_on_valid_clocks:
  assumes "VC_valid a" and "VC_valid b"
  shows "VC_le a b = Inr (\<forall>t. VC_value a t \<le> VC_value b t)"
proof -
  have pos: "\<forall>p\<in>set a. 0 < snd p" and d: "distinct (map fst a)"
    using assms(1) by (simp_all add: VC_valid_def VC_ok_def)
  have "(\<forall>p\<in>set a. snd p \<le> VC_value b (fst p) \<and> VC_find b (fst p) \<noteq> None)
        \<longleftrightarrow> (\<forall>t. VC_value a t \<le> VC_value b t)" (is "?l \<longleftrightarrow> ?r")
  proof
    assume l: ?l
    show ?r
    proof
      fix t
      show "VC_value a t \<le> VC_value b t"
      proof (cases "t \<in> fst ` set a")
        case True
        then obtain p where p: "p \<in> set a" "fst p = t" by auto
        then show ?thesis using l VC_value_entry [OF d p(1)] by auto
      next
        case False
        then show ?thesis using VC_value_nonneg [OF assms(2), of t] by (simp add: VC_value_absent)
      qed
    qed
  next
    assume r: ?r
    show ?l
    proof
      fix p assume p: "p \<in> set a"
      have v: "VC_value a (fst p) = snd p" by (rule VC_value_entry [OF d p])
      have le: "snd p \<le> VC_value b (fst p)" using r v by metis
      have "0 < VC_value b (fst p)" using le pos p by force
      then have "VC_find b (fst p) \<noteq> None" by (auto simp: VC_value_def split: option.splits)
      then show "snd p \<le> VC_value b (fst p) \<and> VC_find b (fst p) \<noteq> None" using le by simp
    qed
  qed
  then show ?thesis by (simp add: VC_le_pos [OF pos])
qed

theorem VC_le_on_valid_clocks_witness:
  "VC_valid [(0, 2), (1, 1)] \<and> VC_valid [(0, 2)]
   \<and> VC_le [(0, 2)] [(0, 2), (1, 1)] = Inr True
   \<and> VC_le [(0, 2), (1, 1)] [(0, 2)] = Inr False"
proof -
  have a: "VC_valid [(0, 2), (1, 1)]" and b: "VC_valid [(0, 2)]"
    by (simp_all add: VC_valid_def VC_ok_def)
  show ?thesis
    using a b VC_le_on_valid_clocks [OF b a] VC_le_on_valid_clocks [OF a b]
    by (simp add: VC_find_def)
qed

text \<open>On the same clocks \<open>operator |=\<close> is the join of the data model.\<close>

theorem VC_join_is_pointwise_maximum:
  assumes "VC_valid a" and "VC_valid b"
  shows "VC_valid (VC_join a b) \<and> (\<forall>t. VC_value (VC_join a b) t = max (VC_value a t) (VC_value b t))"
  using assms by (simp add: VC_value_join_valid VC_valid_join VC_valid_pos)

theorem VC_join_is_pointwise_maximum_witness:
  "VC_valid [(0, 2), (3, 1)] \<and> VC_valid [(0, 1), (1, 4)]
   \<and> VC_join [(0, 2), (3, 1)] [(0, 1), (1, 4)] = [(0, 2), (1, 4), (3, 1)]
   \<and> VC_value (VC_join [(0, 2), (3, 1)] [(0, 1), (1, 4)]) 1 = max 0 4"
proof -
  have a: "VC_valid [(0, 2), (3, 1)]" and b: "VC_valid [(0, 1), (1, 4)]"
    by (simp_all add: VC_valid_def VC_ok_def)
  show ?thesis
    using a b VC_join_is_pointwise_maximum [OF a b]
    by (simp add: VC_subscript_def VC_find_def VC_value_def)
qed

text \<open>
  In the reachable states of the tool no routine compares a clock that has an entry
  without a positive time: the only undefined behaviour left is the overflow of a
  clock component.
\<close>

lemma pin_step_error:
  assumes "pin_reachable watch_vars watch_locks g" and "pin_step e g = Inl err"
  shows "err = SignedOverflow"
proof -
  have inv: "pin_inv g" using assms(1) by (rule pin_reachable_inv)
  have ok: "threads_ok (g_thread_vc g)" using inv by (simp add: pin_inv_def)
  show ?thesis
  proof (cases e)
    case (memory_access tid ins mem w)
    have False
    proof (cases "g_read_vc g mem = None")
      case True
      then show ?thesis using assms(2) memory_access by (simp add: CheckOverflow_def)
    next
      case False
      obtain r1 where r1: "NoRaceForWrite tid mem (pin_Write tid mem g) = Inr r1"
        using NoRaceForWrite_returns [OF pin_inv_Write [OF inv]] by blast
      obtain r2 where r2: "NoRaceForRead tid mem (pin_Read tid mem g) = Inr r2"
        using NoRaceForRead_returns [OF pin_inv_Read [OF inv]] by blast
      show ?thesis
        using assms(2) memory_access False
        by (cases w) (auto simp: CheckOverflow_def r1 r2 bind_result_def Let_def split: prod.splits)
    qed
    then show ?thesis ..
  next
    case (mutex_lock tid m)
    then show ?thesis using assms(2) by simp
  next
    case (mutex_unlock tid m)
    then show ?thesis
      using assms(2) increment_own_ok [OF threads_ok_subscript [OF ok], of tid tid]
      by (auto simp: MutexUnlockWrapper_def pin_Release_def bind_result_def Let_def
          split: if_splits sum.splits)
  next
    case (thread_ctor tid t)
    let ?g = "g\<lparr>cout := cout g @ [thread_ctor_by tid]\<rparr>"
    have i: "pin_inv ?g" using inv by (simp add: pin_inv_out)
    have "Fork tid t ?g = Inl err" using assms(2) thread_ctor by (simp add: ThreadCtorWrapper_def)
    then show ?thesis
      using Fork_returns [OF i, of tid t]
      by (auto simp: Fork_def Let_def bind_result_def increment_own_def pre_increment_def
          split: sum.splits if_splits)
  next
    case (thread_join tid t)
    let ?g = "g\<lparr>cout := cout g @ [thread_join_by tid]\<rparr>"
    have i: "pin_inv ?g" using inv by (simp add: pin_inv_out)
    have "Join tid t ?g = Inl err" using assms(2) thread_join by (simp add: ThreadJoinWrapper_def)
    then show ?thesis
      unfolding Join_effect [OF i] by (simp split: if_splits)
  qed
qed

theorem tool_never_dereferences_end:
  assumes "pin_reachable watch_vars watch_locks g"
  shows "pin_step e g \<noteq> Inl EndIteratorDeref \<and> pin_step e g \<noteq> Inl IndexOutOfRange"
  using pin_step_error [OF assms, of e] by auto

theorem tool_never_dereferences_end_witness:
  "pin_reachable [5] [7] (pin_state [5] [7] thread1_trace)
   \<and> pin_step (memory_access 0 100 5 False) (pin_state [5] [7] thread1_trace)
       \<noteq> Inl EndIteratorDeref
   \<and> map_sum id out (pin_step (memory_access 0 100 5 False) (pin_state [5] [7] thread1_trace))
       = Inr [Found True 1 5 100, Read_race 0 [(0, 1)] 5 [(1, 1)], Found False 0 5 100]"
  (is "pin_reachable [5] [7] ?g \<and> ?n \<and> ?v")
proof -
  have r: "pin_reachable [5] [7] ?g" by (rule pin_reachable_state)
  have v: "?v" by (simp add: thread1_trace_def pin_defs Let_def)
  show ?thesis
    using r v tool_never_dereferences_end [OF r, of "memory_access 0 100 5 False"] by simp
qed

subsection \<open>The clocks of the tool stay below the own times\<close>

lemma own_time_pos: "pin_inv g \<Longrightarrow> 1 \<le> own_time g t"
proof -
  assume "pin_inv g"
  then have ok: "threads_ok (g_thread_vc g)" by (simp add: pin_inv_def)
  have "0 < VC_value (ThreadVCMap_at (g_thread_vc g) t) t"
    using ThreadVCMap_at_ok [OF ok, of t] by (simp add: VC_value_pos)
  then show ?thesis by (simp add: own_time_def clock_of_def)
qed

lemma VC_value_Nil: "VC_value [] t = 0"
  by (simp add: VC_value_def VC_find_def)

lemma pin_clock_inv_I:
  assumes "pin_clock_inv g"
    and "\<forall>t. own_time g t \<le> own_time g' t"
    and "\<forall>u t. u \<noteq> t \<longrightarrow> VC_value (clock_of g' u) t < own_time g' t"
    and "\<forall>m c. g_lock_vc g' m = Some c \<longrightarrow>
           g_lock_vc g m = Some c \<or> (\<forall>t. VC_value c t < own_time g' t)"
    and "\<forall>x c. g_read_vc g' x = Some c \<longrightarrow>
           g_read_vc g x = Some c \<or> (\<forall>t. VC_value c t \<le> own_time g' t)"
    and "\<forall>x c. g_write_vc g' x = Some c \<longrightarrow>
           g_write_vc g x = Some c \<or> (\<forall>t. VC_value c t \<le> own_time g' t)"
  shows "pin_clock_inv g'"
  unfolding pin_clock_inv_def
proof (intro conjI allI impI)
  fix u t :: THREADID assume "u \<noteq> t"
  then show "VC_value (clock_of g' u) t < own_time g' t" using assms(3) by simp
next
  fix m c t assume c: "g_lock_vc g' m = Some c"
  show "VC_value c t < own_time g' t"
  proof (cases "g_lock_vc g m = Some c")
    case True
    then have "VC_value c t < own_time g t" using assms(1) by (auto simp: pin_clock_inv_def)
    then show ?thesis using assms(2) by (meson less_le_trans)
  next
    case False
    then show ?thesis using assms(4) c by blast
  qed
next
  fix x c t assume c: "g_read_vc g' x = Some c"
  show "VC_value c t \<le> own_time g' t"
  proof (cases "g_read_vc g x = Some c")
    case True
    then have "VC_value c t \<le> own_time g t" using assms(1) by (auto simp: pin_clock_inv_def)
    then show ?thesis using assms(2) by (meson order_trans)
  next
    case False
    then show ?thesis using assms(5) c by blast
  qed
next
  fix x c t assume c: "g_write_vc g' x = Some c"
  show "VC_value c t \<le> own_time g' t"
  proof (cases "g_write_vc g x = Some c")
    case True
    then have "VC_value c t \<le> own_time g t" using assms(1) by (auto simp: pin_clock_inv_def)
    then show ?thesis using assms(2) by (meson order_trans)
  next
    case False
    then show ?thesis using assms(6) c by blast
  qed
qed

text \<open>A step that leaves every thread clock as the tool reads it.\<close>

lemma pin_clock_inv_same_threads:
  assumes "pin_clock_inv g" and "pin_inv g"
    and "clock_of g' = clock_of g"
    and "\<forall>m c. g_lock_vc g' m = Some c \<longrightarrow> g_lock_vc g m = Some c \<or> c = []"
    and "\<forall>x c. g_read_vc g' x = Some c \<longrightarrow>
           g_read_vc g x = Some c \<or> (\<forall>t. VC_value c t \<le> own_time g t)"
    and "\<forall>x c. g_write_vc g' x = Some c \<longrightarrow>
           g_write_vc g x = Some c \<or> (\<forall>t. VC_value c t \<le> own_time g t)"
  shows "pin_clock_inv g'"
proof -
  have o: "own_time g' = own_time g" using assms(3) by (simp add: own_time_def fun_eq_iff)
  have pos: "0 < own_time g t" for t using own_time_pos [OF assms(2), of t] by simp
  show ?thesis
  proof (rule pin_clock_inv_I [OF assms(1)])
    show "\<forall>t. own_time g t \<le> own_time g' t" by (simp add: o)
    show "\<forall>u t. u \<noteq> t \<longrightarrow> VC_value (clock_of g' u) t < own_time g' t"
      using assms(1) by (simp add: o assms(3) pin_clock_inv_def)
    show "\<forall>m c. g_lock_vc g' m = Some c \<longrightarrow>
           g_lock_vc g m = Some c \<or> (\<forall>t. VC_value c t < own_time g' t)"
    proof (intro allI impI)
      fix m c assume c: "g_lock_vc g' m = Some c"
      then have "g_lock_vc g m = Some c \<or> c = []" using assms(4) by blast
      then show "g_lock_vc g m = Some c \<or> (\<forall>t. VC_value c t < own_time g' t)"
        using pos by (auto simp: o VC_value_Nil)
    qed
    show "\<forall>x c. g_read_vc g' x = Some c \<longrightarrow>
           g_read_vc g x = Some c \<or> (\<forall>t. VC_value c t \<le> own_time g' t)"
      using assms(5) by (simp add: o)
    show "\<forall>x c. g_write_vc g' x = Some c \<longrightarrow>
           g_write_vc g x = Some c \<or> (\<forall>t. VC_value c t \<le> own_time g' t)"
      using assms(6) by (simp add: o)
  qed
qed

lemma clock_of_subscript:
  "clock_of (g\<lparr>g_thread_vc := ThreadVCMap_subscript (g_thread_vc g) tid\<rparr>) = clock_of g"
  by (simp add: clock_of_def fun_eq_iff ThreadVCMap_at_subscript)

lemma addr_subscript_cases:
  "addr_subscript m k x = Some c \<Longrightarrow> m x = Some c \<or> c = []"
  by (auto simp: addr_subscript_def split: option.splits if_splits)

lemma addr_at_below:
  assumes "pin_inv g" and "\<forall>x c t. m x = Some c \<longrightarrow> VC_value c t \<le> own_time g t"
  shows "VC_value (addr_at m k) t \<le> own_time g t"
proof (cases "m k")
  case None
  then show ?thesis using own_time_pos [OF assms(1), of t] by (simp add: addr_at_def VC_value_Nil)
next
  case (Some c)
  then show ?thesis using assms(2) by (simp add: addr_at_def)
qed

lemma pin_Read_eq:
  assumes "pin_inv g"
  shows "pin_Read tid mem_addr g =
           g\<lparr>g_thread_vc := ThreadVCMap_subscript (g_thread_vc g) tid,
             g_read_vc := (g_read_vc g)(mem_addr \<mapsto>
                assign tid (own_time g tid) (addr_at (g_read_vc g) mem_addr))\<rparr>"
  using assms by (simp add: pin_Read_def pin_inv_def own_clock_ok own_time_def clock_of_def)

lemma pin_Write_eq:
  assumes "pin_inv g"
  shows "pin_Write tid mem_addr g =
           g\<lparr>g_thread_vc := ThreadVCMap_subscript (g_thread_vc g) tid,
             g_write_vc := (g_write_vc g)(mem_addr \<mapsto>
                assign tid (own_time g tid) (addr_at (g_write_vc g) mem_addr))\<rparr>"
  using assms by (simp add: pin_Write_def pin_inv_def own_clock_ok own_time_def clock_of_def)

lemma pin_clock_inv_Read:
  assumes "pin_inv g" and "pin_clock_inv g"
  shows "pin_clock_inv (pin_Read tid mem_addr g)"
proof (rule pin_clock_inv_same_threads [OF assms(2,1)])
  let ?g = "pin_Read tid mem_addr g"
  show "clock_of ?g = clock_of g"
    by (simp add: pin_Read_eq [OF assms(1)] clock_of_def fun_eq_iff ThreadVCMap_at_subscript)
  show "\<forall>m c. g_lock_vc ?g m = Some c \<longrightarrow> g_lock_vc g m = Some c \<or> c = []"
    by (simp add: pin_Read_eq [OF assms(1)])
  show "\<forall>x c. g_write_vc ?g x = Some c \<longrightarrow>
           g_write_vc g x = Some c \<or> (\<forall>t. VC_value c t \<le> own_time g t)"
    by (simp add: pin_Read_eq [OF assms(1)])
  have b: "VC_value (addr_at (g_read_vc g) mem_addr) t \<le> own_time g t" for t
    using assms(2) by (intro addr_at_below [OF assms(1)]) (auto simp: pin_clock_inv_def)
  show "\<forall>x c. g_read_vc ?g x = Some c \<longrightarrow>
           g_read_vc g x = Some c \<or> (\<forall>t. VC_value c t \<le> own_time g t)"
    using b by (auto simp: pin_Read_eq [OF assms(1)] VC_value_assign)
qed

lemma pin_clock_inv_Write:
  assumes "pin_inv g" and "pin_clock_inv g"
  shows "pin_clock_inv (pin_Write tid mem_addr g)"
proof (rule pin_clock_inv_same_threads [OF assms(2,1)])
  let ?g = "pin_Write tid mem_addr g"
  show "clock_of ?g = clock_of g"
    by (simp add: pin_Write_eq [OF assms(1)] clock_of_def fun_eq_iff ThreadVCMap_at_subscript)
  show "\<forall>m c. g_lock_vc ?g m = Some c \<longrightarrow> g_lock_vc g m = Some c \<or> c = []"
    by (simp add: pin_Write_eq [OF assms(1)])
  show "\<forall>x c. g_read_vc ?g x = Some c \<longrightarrow>
           g_read_vc g x = Some c \<or> (\<forall>t. VC_value c t \<le> own_time g t)"
    by (simp add: pin_Write_eq [OF assms(1)])
  have b: "VC_value (addr_at (g_write_vc g) mem_addr) t \<le> own_time g t" for t
    using assms(2) by (intro addr_at_below [OF assms(1)]) (auto simp: pin_clock_inv_def)
  show "\<forall>x c. g_write_vc ?g x = Some c \<longrightarrow>
           g_write_vc g x = Some c \<or> (\<forall>t. VC_value c t \<le> own_time g t)"
    using b by (auto simp: pin_Write_eq [OF assms(1)] VC_value_assign)
qed

lemma empty_below: "pin_inv g \<Longrightarrow> c = [] \<Longrightarrow> VC_value c t \<le> own_time g t"
  using own_time_pos [of g t] by (simp add: VC_value_Nil)

lemma pin_clock_inv_NoRaceForWrite:
  assumes "pin_inv g" and "pin_clock_inv g" and "NoRaceForWrite tid mem_addr g = Inr (b, g1)"
  shows "pin_clock_inv g1"
proof (rule pin_clock_inv_same_threads [OF assms(2,1)])
  have g1: "g1 = g\<lparr>g_read_vc := addr_subscript (g_read_vc g) mem_addr,
                   g_thread_vc := ThreadVCMap_subscript (g_thread_vc g) tid\<rparr>
          \<or> g1 = g\<lparr>g_read_vc := addr_subscript (g_read_vc g) mem_addr,
                   g_thread_vc := ThreadVCMap_subscript (g_thread_vc g) tid,
                   g_write_vc := addr_subscript (g_write_vc g) mem_addr\<rparr>"
    using assms(3)
    by (auto simp: NoRaceForWrite_def bind_result_def Let_def split: sum.splits if_splits)
  show "clock_of g1 = clock_of g"
    using g1 by (auto simp: clock_of_def fun_eq_iff ThreadVCMap_at_subscript)
  show "\<forall>m c. g_lock_vc g1 m = Some c \<longrightarrow> g_lock_vc g m = Some c \<or> c = []"
    using g1 by auto
  show "\<forall>x c. g_read_vc g1 x = Some c \<longrightarrow>
           g_read_vc g x = Some c \<or> (\<forall>t. VC_value c t \<le> own_time g t)"
    using g1 empty_below [OF assms(1)] by (auto dest!: addr_subscript_cases)
  show "\<forall>x c. g_write_vc g1 x = Some c \<longrightarrow>
           g_write_vc g x = Some c \<or> (\<forall>t. VC_value c t \<le> own_time g t)"
    using g1 empty_below [OF assms(1)] by (auto dest!: addr_subscript_cases)
qed

lemma pin_clock_inv_NoRaceForRead:
  assumes "pin_inv g" and "pin_clock_inv g" and "NoRaceForRead tid mem_addr g = Inr (b, g1)"
  shows "pin_clock_inv g1"
proof (rule pin_clock_inv_same_threads [OF assms(2,1)])
  have g1: "g1 = g\<lparr>g_write_vc := addr_subscript (g_write_vc g) mem_addr,
                   g_thread_vc := ThreadVCMap_subscript (g_thread_vc g) tid\<rparr>"
    using assms(3) by (auto simp: NoRaceForRead_def bind_result_def split: sum.splits)
  show "clock_of g1 = clock_of g"
    using g1 by (auto simp: clock_of_def fun_eq_iff ThreadVCMap_at_subscript)
  show "\<forall>m c. g_lock_vc g1 m = Some c \<longrightarrow> g_lock_vc g m = Some c \<or> c = []"
    using g1 by auto
  show "\<forall>x c. g_read_vc g1 x = Some c \<longrightarrow>
           g_read_vc g x = Some c \<or> (\<forall>t. VC_value c t \<le> own_time g t)"
    using g1 by auto
  show "\<forall>x c. g_write_vc g1 x = Some c \<longrightarrow>
           g_write_vc g x = Some c \<or> (\<forall>t. VC_value c t \<le> own_time g t)"
    using g1 empty_below [OF assms(1)] by (auto dest!: addr_subscript_cases)
qed

lemma pin_clock_inv_print:
  assumes "pin_inv g" and "pin_clock_inv g"
  shows "pin_clock_inv (g\<lparr>g_thread_vc := ThreadVCMap_subscript (g_thread_vc g) tid,
              g_read_vc := addr_subscript (g_read_vc g) mem_addr,
              g_write_vc := addr_subscript (g_write_vc g) mem_addr, out := x\<rparr>)"
    and "pin_clock_inv (g\<lparr>g_thread_vc := ThreadVCMap_subscript (g_thread_vc g) tid,
              g_write_vc := addr_subscript (g_write_vc g) mem_addr, out := x\<rparr>)"
    and "pin_clock_inv (g\<lparr>out := x\<rparr>)" and "pin_clock_inv (g\<lparr>cout := y\<rparr>)"
proof -
  show "pin_clock_inv (g\<lparr>g_thread_vc := ThreadVCMap_subscript (g_thread_vc g) tid,
              g_read_vc := addr_subscript (g_read_vc g) mem_addr,
              g_write_vc := addr_subscript (g_write_vc g) mem_addr, out := x\<rparr>)"
    using empty_below [OF assms(1)]
    by (intro pin_clock_inv_same_threads [OF assms(2,1)])
      (auto simp: clock_of_def fun_eq_iff ThreadVCMap_at_subscript dest!: addr_subscript_cases)
  show "pin_clock_inv (g\<lparr>g_thread_vc := ThreadVCMap_subscript (g_thread_vc g) tid,
              g_write_vc := addr_subscript (g_write_vc g) mem_addr, out := x\<rparr>)"
    using empty_below [OF assms(1)]
    by (intro pin_clock_inv_same_threads [OF assms(2,1)])
      (auto simp: clock_of_def fun_eq_iff ThreadVCMap_at_subscript dest!: addr_subscript_cases)
  show "pin_clock_inv (g\<lparr>out := x\<rparr>)" "pin_clock_inv (g\<lparr>cout := y\<rparr>)"
    using assms(2) by (simp_all add: pin_clock_inv_def own_time_def clock_of_def)
qed

lemma pin_clock_inv_CheckOverflow:
  assumes "pin_inv g" and "pin_clock_inv g"
    and "CheckOverflow tid ins_addr mem_addr is_write g = Inr g'"
  shows "pin_clock_inv g'"
proof (cases "g_read_vc g mem_addr = None")
  case True
  then show ?thesis using assms by (simp add: CheckOverflow_def)
next
  case False
  show ?thesis
  proof (cases is_write)
    case True
    let ?w = "pin_Write tid mem_addr g"
    have iw: "pin_inv ?w" and cw: "pin_clock_inv ?w"
      using assms(1,2) by (simp_all add: pin_inv_Write pin_clock_inv_Write)
    obtain b g1 where n: "NoRaceForWrite tid mem_addr ?w = Inr (b, g1)"
      using NoRaceForWrite_returns [OF iw, of tid mem_addr] by auto
    have i1: "pin_inv g1" using pin_inv_NoRaceForWrite [OF iw n] .
    have c1: "pin_clock_inv g1" using pin_clock_inv_NoRaceForWrite [OF iw cw n] .
    note p = pin_clock_inv_print [OF i1 c1] pin_inv_print [OF i1]
    show ?thesis
    proof (cases b)
      case True
      then have "g' = g1\<lparr>out := out g1 @ [Found True tid mem_addr ins_addr]\<rparr>"
        using assms(3) False \<open>is_write\<close>
        by (simp add: CheckOverflow_def n bind_result_def Let_def)
      then show ?thesis using p(3) by simp
    next
      case f: False
      let ?g2 = "g1\<lparr>g_thread_vc := ThreadVCMap_subscript (g_thread_vc g1) tid,
                    g_read_vc := addr_subscript (g_read_vc g1) mem_addr,
                    g_write_vc := addr_subscript (g_write_vc g1) mem_addr,
                    out := out g1 @ [Write_race tid (ThreadVCMap_at (g_thread_vc g1) tid)
                             mem_addr (addr_at (g_read_vc g1) mem_addr)
                             (addr_at (g_write_vc g1) mem_addr)]\<rparr>"
      have g': "g' = ?g2\<lparr>out := out ?g2 @ [Found True tid mem_addr ins_addr]\<rparr>"
        using assms(3) False \<open>is_write\<close> f
        by (simp add: CheckOverflow_def n bind_result_def Let_def)
      have "pin_inv ?g2" "pin_clock_inv ?g2" using p(1) p(5) by simp_all
      then show ?thesis unfolding g' by (rule pin_clock_inv_print(3))
    qed
  next
    case nw: False
    let ?r = "pin_Read tid mem_addr g"
    have ir: "pin_inv ?r" and cr: "pin_clock_inv ?r"
      using assms(1,2) by (simp_all add: pin_inv_Read pin_clock_inv_Read)
    obtain b g1 where n: "NoRaceForRead tid mem_addr ?r = Inr (b, g1)"
      using NoRaceForRead_returns [OF ir, of tid mem_addr] by auto
    have i1: "pin_inv g1" using pin_inv_NoRaceForRead [OF ir n] .
    have c1: "pin_clock_inv g1" using pin_clock_inv_NoRaceForRead [OF ir cr n] .
    note p = pin_clock_inv_print [OF i1 c1] pin_inv_print [OF i1]
    show ?thesis
    proof (cases b)
      case True
      then have "g' = g1\<lparr>out := out g1 @ [Found False tid mem_addr ins_addr]\<rparr>"
        using assms(3) False nw
        by (simp add: CheckOverflow_def n bind_result_def Let_def)
      then show ?thesis using p(3) by simp
    next
      case f: False
      let ?g2 = "g1\<lparr>g_thread_vc := ThreadVCMap_subscript (g_thread_vc g1) tid,
                    g_write_vc := addr_subscript (g_write_vc g1) mem_addr,
                    out := out g1 @ [Read_race tid (ThreadVCMap_at (g_thread_vc g1) tid)
                             mem_addr (addr_at (g_write_vc g1) mem_addr)]\<rparr>"
      have g': "g' = ?g2\<lparr>out := out ?g2 @ [Found False tid mem_addr ins_addr]\<rparr>"
        using assms(3) False nw f
        by (simp add: CheckOverflow_def n bind_result_def Let_def)
      have "pin_inv ?g2" "pin_clock_inv ?g2" using p(2) p(6) by simp_all
      then show ?thesis unfolding g' by (rule pin_clock_inv_print(3))
    qed
  qed
qed

lemma lock_below:
  assumes "pin_inv g" and "pin_clock_inv g"
  shows "VC_value (addr_at (g_lock_vc g) m) t < own_time g t"
proof (cases "g_lock_vc g m")
  case None
  then show ?thesis using own_time_pos [OF assms(1), of t] by (simp add: addr_at_def VC_value_Nil)
next
  case (Some c)
  then show ?thesis using assms(2) by (simp add: addr_at_def pin_clock_inv_def)
qed

lemma pin_clock_inv_Aquire:
  assumes "pin_inv g" and "pin_clock_inv g"
  shows "pin_clock_inv (Aquire tid m g)"
proof -
  let ?g = "Aquire tid m g"
  have ok: "threads_ok (g_thread_vc g)" and lk: "addrs_ok (g_lock_vc g)"
    using assms(1) by (simp_all add: pin_inv_def)
  have jn: "VC_value (VC_join (clock_of g tid) (addr_at (g_lock_vc g) m)) t
        = max (VC_value (clock_of g tid) t) (VC_value (addr_at (g_lock_vc g) m) t)" for t
    unfolding clock_of_def
    by (rule VC_value_join_valid [OF ThreadVCMap_at_ok(1) [OF ok] addr_at_ok [OF lk]])
  have c: "VC_value (clock_of ?g u) t
        = (if u = tid then max (VC_value (clock_of g tid) t) (VC_value (addr_at (g_lock_vc g) m) t)
           else VC_value (clock_of g u) t)" for u t
    using jn by (simp add: Aquire_def clock_of_def ThreadVCMap_at_upd)
  have lb: "VC_value (addr_at (g_lock_vc g) m) t < own_time g t" for t
    by (rule lock_below [OF assms])
  have o: "own_time ?g t = own_time g t" for t
    using lb [of tid] by (simp add: own_time_def [of ?g] c) (simp add: own_time_def max_def)
  have k: "VC_value (clock_of g u) t < own_time g t" if "u \<noteq> t" for u t
    using assms(2) that by (simp add: pin_clock_inv_def)
  show ?thesis
  proof (rule pin_clock_inv_I [OF assms(2)])
    show "\<forall>t. own_time g t \<le> own_time ?g t" by (simp add: o)
    show "\<forall>u t. u \<noteq> t \<longrightarrow> VC_value (clock_of ?g u) t < own_time ?g t"
      using k lb by (simp add: o c)
    show "\<forall>ma c. g_lock_vc ?g ma = Some c \<longrightarrow>
           g_lock_vc g ma = Some c \<or> (\<forall>t. VC_value c t < own_time ?g t)"
    proof (intro allI impI)
      fix ma c assume "g_lock_vc ?g ma = Some c"
      then have "g_lock_vc g ma = Some c \<or> c = []"
        by (simp add: Aquire_def addr_subscript_cases)
      moreover have "0 < own_time g t" for t using own_time_pos [OF assms(1), of t] by simp
      ultimately show "g_lock_vc g ma = Some c \<or> (\<forall>t. VC_value c t < own_time ?g t)"
        by (auto simp: o VC_value_Nil)
    qed
    show "\<forall>x c. g_read_vc ?g x = Some c \<longrightarrow>
           g_read_vc g x = Some c \<or> (\<forall>t. VC_value c t \<le> own_time ?g t)"
      by (simp add: Aquire_def)
    show "\<forall>x c. g_write_vc ?g x = Some c \<longrightarrow>
           g_write_vc g x = Some c \<or> (\<forall>t. VC_value c t \<le> own_time ?g t)"
      by (simp add: Aquire_def)
  qed
qed

lemma pin_Release_eq:
  assumes "pin_inv g"
  shows "pin_Release tid m g =
           (if own_time g tid = INT_MAX then Inl SignedOverflow
            else Inr (g\<lparr>g_lock_vc := (g_lock_vc g)(m \<mapsto> clock_of g tid),
                        g_thread_vc := (ThreadVCMap_subscript (g_thread_vc g) tid)
                           (tid \<mapsto> assign tid (own_time g tid + 1) (clock_of g tid))\<rparr>))"
proof -
  have ok: "threads_ok (ThreadVCMap_subscript (g_thread_vc g) tid)"
    using assms by (simp add: pin_inv_def threads_ok_subscript)
  show ?thesis
    by (simp add: pin_Release_def Let_def increment_own_ok [OF ok] ThreadVCMap_at_subscript
        bind_result_def own_time_def clock_of_def)
qed

lemma pin_clock_inv_Release:
  assumes "pin_inv g" and "pin_clock_inv g" and "pin_Release tid m g = Inr g'"
  shows "pin_clock_inv g'"
proof -
  have g': "g' = g\<lparr>g_lock_vc := (g_lock_vc g)(m \<mapsto> clock_of g tid),
                   g_thread_vc := (ThreadVCMap_subscript (g_thread_vc g) tid)
                      (tid \<mapsto> assign tid (own_time g tid + 1) (clock_of g tid))\<rparr>"
    using assms(3) unfolding pin_Release_eq [OF assms(1)] by (simp split: if_splits)
  have c: "VC_value (clock_of g' u) t
        = (if u = tid \<and> t = tid then own_time g tid + 1 else VC_value (clock_of g u) t)" for u t
    by (simp add: g' clock_of_def ThreadVCMap_at_upd ThreadVCMap_at_subscript VC_value_assign)
  have o: "own_time g' t = (if t = tid then own_time g tid + 1 else own_time g t)" for t
    by (simp add: own_time_def [of g'] c) (simp add: own_time_def)
  have k: "VC_value (clock_of g u) t < own_time g t" if "u \<noteq> t" for u t
    using assms(2) that by (simp add: pin_clock_inv_def)
  show ?thesis
  proof (rule pin_clock_inv_I [OF assms(2)])
    show "\<forall>t. own_time g t \<le> own_time g' t" by (simp add: o)
    show "\<forall>u t. u \<noteq> t \<longrightarrow> VC_value (clock_of g' u) t < own_time g' t"
    proof (intro allI impI)
      fix u t :: THREADID assume ut: "u \<noteq> t"
      show "VC_value (clock_of g' u) t < own_time g' t"
        using k [OF ut] ut by (cases "t = tid") (simp_all add: o c)
    qed
    show "\<forall>ma c. g_lock_vc g' ma = Some c \<longrightarrow>
           g_lock_vc g ma = Some c \<or> (\<forall>t. VC_value c t < own_time g' t)"
    proof (intro allI impI)
      fix ma c assume "g_lock_vc g' ma = Some c"
      then have "g_lock_vc g ma = Some c \<or> c = clock_of g tid"
        by (auto simp: g' split: if_splits)
      moreover have "VC_value (clock_of g tid) t < own_time g' t" for t
      proof (cases "t = tid")
        case True
        have "VC_value (clock_of g tid) tid = own_time g tid" by (simp add: own_time_def)
        then show ?thesis using True by (simp add: o)
      next
        case False
        then show ?thesis using k [of tid t] by (simp add: o)
      qed
      ultimately show "g_lock_vc g ma = Some c \<or> (\<forall>t. VC_value c t < own_time g' t)" by auto
    qed
    show "\<forall>x c. g_read_vc g' x = Some c \<longrightarrow>
           g_read_vc g x = Some c \<or> (\<forall>t. VC_value c t \<le> own_time g' t)"
      by (simp add: g')
    show "\<forall>x c. g_write_vc g' x = Some c \<longrightarrow>
           g_write_vc g x = Some c \<or> (\<forall>t. VC_value c t \<le> own_time g' t)"
      by (simp add: g')
  qed
qed

text \<open>
  \<open>Fork\<close> and \<open>Join\<close> have one shape: the clock of a thread \<open>b\<close> takes in the clock
  of a thread \<open>a\<close>, and then the own time of \<open>a\<close> is incremented.
\<close>

lemma pin_clock_inv_merge_increment:
  fixes a b :: THREADID
  assumes "pin_clock_inv g"
    and "g_lock_vc g' = g_lock_vc g" "g_read_vc g' = g_read_vc g" "g_write_vc g' = g_write_vc g"
    and ca: "\<forall>w. VC_value (clock_of g' a) w
               = (if w = a then own_time g a + 1 else VC_value (clock_of g a) w)"
    and cb: "b \<noteq> a \<longrightarrow> (\<forall>w. VC_value (clock_of g' b) w
               = max (VC_value (clock_of g b) w) (VC_value (clock_of g a) w))"
    and co: "\<forall>t. t \<noteq> a \<and> t \<noteq> b \<longrightarrow> clock_of g' t = clock_of g t"
  shows "pin_clock_inv g'"
proof -
  have k: "VC_value (clock_of g u) t < own_time g t" if "u \<noteq> t" for u t
    using assms(1) that by (simp add: pin_clock_inv_def)
  have oa: "own_time g' a = own_time g a + 1"
    using ca by (simp add: own_time_def [of g'])
  have ob: "own_time g' b = own_time g b" if "b \<noteq> a"
  proof -
    have "own_time g' b = max (own_time g b) (VC_value (clock_of g a) b)"
      using cb that by (simp add: own_time_def)
    then show ?thesis using k [of a b] that by (simp add: max_def)
  qed
  have oo: "own_time g' t = own_time g t" if "t \<noteq> a" for t
  proof (cases "t = b")
    case True
    then show ?thesis using ob that by simp
  next
    case False
    then show ?thesis using co that by (simp add: own_time_def)
  qed
  have mono: "own_time g t \<le> own_time g' t" for t
    by (cases "t = a") (simp_all add: oa oo)
  have own_a: "VC_value (clock_of g a) a = own_time g a" by (simp add: own_time_def)
  show ?thesis
  proof (rule pin_clock_inv_I [OF assms(1)])
    show "\<forall>t. own_time g t \<le> own_time g' t" using mono by simp
    show "\<forall>u t. u \<noteq> t \<longrightarrow> VC_value (clock_of g' u) t < own_time g' t"
    proof (intro allI impI)
      fix u t :: THREADID assume ut: "u \<noteq> t"
      show "VC_value (clock_of g' u) t < own_time g' t"
      proof (cases "u = a")
        case True
        then have "VC_value (clock_of g' u) t = VC_value (clock_of g a) t" using ca ut by auto
        then show ?thesis using k [of a t] ut True mono [of t] by simp
      next
        case na: False
        show ?thesis
        proof (cases "u = b")
          case True
          then have v: "VC_value (clock_of g' u) t
              = max (VC_value (clock_of g b) t) (VC_value (clock_of g a) t)"
            using cb na by simp
          show ?thesis
          proof (cases "t = a")
            case ta: True
            have "VC_value (clock_of g b) a < own_time g a" using k [of b a] True na by simp
            then have "max (VC_value (clock_of g b) a) (VC_value (clock_of g a) a) < own_time g a + 1"
              by (simp add: own_a)
            then show ?thesis using v by (simp only: ta oa)
          next
            case False
            then have "VC_value (clock_of g a) t < own_time g t" using k [of a t] by simp
            moreover have "VC_value (clock_of g b) t < own_time g t"
              using k [of b t] ut True by simp
            ultimately show ?thesis by (simp add: v oo [OF False])
          qed
        next
          case False
          then have "clock_of g' u = clock_of g u" using co na by simp
          then show ?thesis using k [OF ut] mono [of t] by simp
        qed
      qed
    qed
    show "\<forall>m c. g_lock_vc g' m = Some c \<longrightarrow>
           g_lock_vc g m = Some c \<or> (\<forall>t. VC_value c t < own_time g' t)"
      by (simp add: assms(2))
    show "\<forall>x c. g_read_vc g' x = Some c \<longrightarrow>
           g_read_vc g x = Some c \<or> (\<forall>t. VC_value c t \<le> own_time g' t)"
      by (simp add: assms(3))
    show "\<forall>x c. g_write_vc g' x = Some c \<longrightarrow>
           g_write_vc g x = Some c \<or> (\<forall>t. VC_value c t \<le> own_time g' t)"
      by (simp add: assms(4))
  qed
qed

lemma clock_of_same: "g_thread_vc g' t = g_thread_vc g t \<Longrightarrow> clock_of g' t = clock_of g t"
  by (simp add: clock_of_def ThreadVCMap_at_def)

lemma maps_Fork_Join:
  "Fork tid t g = Inr g' \<Longrightarrow>
     g_lock_vc g' = g_lock_vc g \<and> g_read_vc g' = g_read_vc g \<and> g_write_vc g' = g_write_vc g"
  "Join tid t g = Inr g' \<Longrightarrow>
     g_lock_vc g' = g_lock_vc g \<and> g_read_vc g' = g_read_vc g \<and> g_write_vc g' = g_write_vc g"
  by (auto simp: Fork_def Join_def bind_result_def Let_def split: sum.splits)

lemma pin_clock_inv_Fork:
  assumes "pin_inv g" and "pin_clock_inv g" and "Fork tid thread_obj g = Inr g'"
  shows "pin_clock_inv g'"
proof -
  note e = Fork_effect [OF assms(1,3)]
  have m: "g_lock_vc g' = g_lock_vc g" "g_read_vc g' = g_read_vc g" "g_write_vc g' = g_write_vc g"
    using maps_Fork_Join(1) [OF assms(3)] by simp_all
  have ca: "\<forall>w. VC_value (clock_of g' tid) w
               = (if w = tid then own_time g tid + 1 else VC_value (clock_of g tid) w)"
    unfolding clock_of_def own_time_def by (rule e(5))
  have cb: "last_id g + 1 \<noteq> tid \<longrightarrow> (\<forall>w. VC_value (clock_of g' (last_id g + 1)) w
               = max (VC_value (clock_of g (last_id g + 1)) w) (VC_value (clock_of g tid) w))"
    unfolding clock_of_def by (rule e(4))
  have co: "\<forall>t. t \<noteq> tid \<and> t \<noteq> last_id g + 1 \<longrightarrow> clock_of g' t = clock_of g t"
    using e(2) clock_of_same [of g' _ g] by blast
  show ?thesis
    by (rule pin_clock_inv_merge_increment [OF assms(2) m ca cb co])
qed

lemma pin_clock_inv_Join:
  assumes "pin_inv g" and "pin_clock_inv g" and "Join tid thread_obj g = Inr g'"
  shows "pin_clock_inv g'"
proof -
  define j where "j = (case thread_to_id g thread_obj of None \<Rightarrow> 0 | Some i \<Rightarrow> i)"
  note v = Join_values [OF assms(1,3), folded j_def]
  have m: "g_lock_vc g' = g_lock_vc g" "g_read_vc g' = g_read_vc g" "g_write_vc g' = g_write_vc g"
    using maps_Fork_Join(2) [OF assms(3)] by simp_all
  have ca: "\<forall>w. VC_value (clock_of g' j) w
               = (if w = j then own_time g j + 1 else VC_value (clock_of g j) w)"
    unfolding clock_of_def own_time_def by (rule v(1))
  have cb: "tid \<noteq> j \<longrightarrow> (\<forall>w. VC_value (clock_of g' tid) w
               = max (VC_value (clock_of g tid) w) (VC_value (clock_of g j) w))"
    unfolding clock_of_def by (rule v(2))
  have co: "\<forall>t. t \<noteq> j \<and> t \<noteq> tid \<longrightarrow> clock_of g' t = clock_of g t"
    using v(3) clock_of_same [of g' _ g] by blast
  show ?thesis
    by (rule pin_clock_inv_merge_increment [OF assms(2) m ca cb co])
qed

lemma pin_clock_inv_start: "pin_clock_inv (pin_start wv wl)"
proof -
  have c: "clock_of (pin_start wv wl) t = [(t, 1)]" for t
    by (simp add: clock_of_def pin_start_def ThreadVCMap_at_def)
  have o: "own_time (pin_start wv wl) t = 1" for t
    by (simp add: own_time_def c VC_value_Cons)
  have e: "map_of (map (\<lambda>a. (a, [])) xs) x = Some c \<Longrightarrow> c = []" for xs :: "ADDRINT list" and x and c :: VC
    by (auto dest!: map_of_SomeD)
  have maps: "g_lock_vc (pin_start wv wl) = map_of (map (\<lambda>a. (a, [])) wl)"
    "g_read_vc (pin_start wv wl) = map_of (map (\<lambda>a. (a, [])) wv)"
    "g_write_vc (pin_start wv wl) = map_of (map (\<lambda>a. (a, [])) wv)"
    by (simp_all add: pin_start_def)
  show ?thesis
    unfolding pin_clock_inv_def maps o c
    by (auto simp: VC_value_Cons VC_value_Nil dest!: e)
qed

lemma pin_clock_inv_step:
  assumes "pin_inv g" and "pin_clock_inv g" and "pin_step e g = Inr g'"
  shows "pin_clock_inv g'"
proof (cases e)
  case (memory_access tid ins mem w)
  then show ?thesis using assms by (auto intro: pin_clock_inv_CheckOverflow)
next
  case (mutex_lock tid m)
  then show ?thesis using assms
    by (cases "g_lock_vc g m = None") (auto simp: MutexLockWrapper_def pin_clock_inv_Aquire)
next
  case (mutex_unlock tid m)
  then show ?thesis using assms
    by (cases "g_lock_vc g m = None")
      (auto simp: MutexUnlockWrapper_def intro: pin_clock_inv_Release)
next
  case (thread_ctor tid t)
  let ?g = "g\<lparr>cout := cout g @ [thread_ctor_by tid]\<rparr>"
  have "pin_inv ?g" "pin_clock_inv ?g"
    using assms(1,2) by (simp_all add: pin_inv_out pin_clock_inv_print(4))
  moreover have "Fork tid t ?g = Inr g'" using assms(3) thread_ctor by (simp add: ThreadCtorWrapper_def)
  ultimately show ?thesis by (rule pin_clock_inv_Fork)
next
  case (thread_join tid t)
  let ?g = "g\<lparr>cout := cout g @ [thread_join_by tid]\<rparr>"
  have "pin_inv ?g" "pin_clock_inv ?g"
    using assms(1,2) by (simp_all add: pin_inv_out pin_clock_inv_print(4))
  moreover have "Join tid t ?g = Inr g'" using assms(3) thread_join by (simp add: ThreadJoinWrapper_def)
  ultimately show ?thesis by (rule pin_clock_inv_Join)
qed

lemma pin_reachable_clock_inv: "pin_reachable wv wl g \<Longrightarrow> pin_clock_inv g"
proof (induction rule: pin_reachable.induct)
  case pin_reachable_start
  show ?case by (rule pin_clock_inv_start)
next
  case (pin_reachable_step g e g')
  then show ?case using pin_reachable_inv [of wv wl g] by (auto intro: pin_clock_inv_step)
qed

text \<open>
  The invariant of claim C3 for the tool: in every reachable state the read and the
  write clock of every address are, in every component \<open>t\<close>, at most \<open>C[t][t]\<close>, which
  is at least 1.  The clocks are read as the subscripts of the tool read them.
\<close>

theorem tool_clocks_below_own_time:
  assumes "pin_reachable watch_vars watch_locks g"
  shows "VC_value (addr_at (g_read_vc g) x) t \<le> own_time g t
       \<and> VC_value (addr_at (g_write_vc g) x) t \<le> own_time g t
       \<and> 1 \<le> own_time g t"
proof -
  have inv: "pin_inv g" and c: "pin_clock_inv g"
    using assms by (simp_all add: pin_reachable_inv pin_reachable_clock_inv)
  have "VC_value (addr_at (g_read_vc g) x) t \<le> own_time g t"
    using c by (intro addr_at_below [OF inv]) (auto simp: pin_clock_inv_def)
  moreover have "VC_value (addr_at (g_write_vc g) x) t \<le> own_time g t"
    using c by (intro addr_at_below [OF inv]) (auto simp: pin_clock_inv_def)
  ultimately show ?thesis using own_time_pos [OF inv, of t] by simp
qed

theorem tool_clocks_below_own_time_witness:
  "pin_reachable [5] [7] (pin_state [5] [7] thread1_trace)
   \<and> VC_value (addr_at (g_write_vc (pin_state [5] [7] thread1_trace)) 5) 1 = 1
   \<and> VC_value (addr_at (g_read_vc (pin_state [5] [7] thread1_trace)) 5) 1 = 0
   \<and> own_time (pin_state [5] [7] thread1_trace) 1 = 2"
  (is "pin_reachable [5] [7] ?g \<and> ?v")
proof -
  have r: "pin_reachable [5] [7] ?g" by (rule pin_reachable_state)
  have v: "?v" by (simp add: thread1_trace_def own_time_def clock_of_def pin_defs Let_def)
  show ?thesis using r v tool_clocks_below_own_time [OF r, of 5 1] by simp
qed

text \<open>
  The monotonicity of claim C4 for the tool, whose \<open>Release\<close> copies the clock before
  it increments: in every reachable state \<open>Release(t, m)\<close> returns unless \<open>C[t][t]\<close> is
  \<open>INT_MAX\<close>, and the new \<open>L[m][t]\<close>, the old \<open>C[t][t]\<close>, is above the old \<open>L[m][t]\<close>.
\<close>

theorem tool_release_increases_lock_clock:
  assumes "pin_reachable watch_vars watch_locks g" and "own_time g tid \<noteq> INT_MAX"
  shows "\<exists>g'. pin_Release tid m g = Inr g'
           \<and> VC_value (addr_at (g_lock_vc g) m) tid < VC_value (addr_at (g_lock_vc g') m) tid"
proof -
  have inv: "pin_inv g" and c: "pin_clock_inv g"
    using assms(1) by (simp_all add: pin_reachable_inv pin_reachable_clock_inv)
  have "VC_value (addr_at (g_lock_vc g) m) tid < own_time g tid" by (rule lock_below [OF inv c])
  then show ?thesis
    using assms(2) by (simp add: pin_Release_eq [OF inv] addr_at_def own_time_def)
qed

theorem tool_release_increases_lock_clock_witness:
  "pin_reachable [5] [7] (pin_state [5] [7] thread1_trace)
   \<and> own_time (pin_state [5] [7] thread1_trace) 1 \<noteq> INT_MAX
   \<and> VC_value (addr_at (g_lock_vc (pin_state [5] [7] thread1_trace)) 7) 1 = 1
   \<and> (\<exists>g'. pin_Release 1 7 (pin_state [5] [7] thread1_trace) = Inr g'
          \<and> VC_value (addr_at (g_lock_vc g') 7) 1 = 2)"
  (is "pin_reachable [5] [7] ?g \<and> ?h \<and> ?v")
proof -
  have r: "pin_reachable [5] [7] ?g" by (rule pin_reachable_state)
  have h: "?h" by (simp add: thread1_trace_def own_time_def clock_of_def pin_defs Let_def)
  have v: "?v" by (simp add: thread1_trace_def pin_defs Let_def)
  show ?thesis using r h v tool_release_increases_lock_clock [OF r h, of 7] by simp
qed

end
